theory Spec2Isabelle
  imports Main "HOL-Library.Word" "HOL-Library.Char_ord"
begin

section \<open>The intset extension (src/intset.c)\<close>

text \<open>
  An intSet is a sequence of unsigned 32-bit integers held in a variable-length
  datum.  The construction tree is a pointer-linked binary tree whose nodes are
  owned by exactly one parent, so it is a datatype here; \<open>Null\<close> is the C
  \<open>NULL\<close> pointer.  Everything that is undefined behaviour in C is an error
  value of the model: dereferencing \<open>NULL\<close> and reading or writing an array
  outside its bounds.
\<close>

type_synonym uint32 = "32 word"

datatype error = InvalidSyntax | OutOfBounds | NullDeref

datatype treeNode = Null | Node (data: uint32) (left: treeNode) (right: treeNode)

subsection \<open>Tree operations\<close>

definition newNode :: "uint32 \<Rightarrow> treeNode" where
  "newNode n = Node n Null Null"

text \<open>\<open>treeHeight\<close> returns a \<open>uint32_t\<close>: the addition wraps at \<open>2 ^ 32\<close>.\<close>

fun treeHeight :: "treeNode \<Rightarrow> uint32" where
  "treeHeight Null = 0"
| "treeHeight (Node d l r) =
     (let lh = treeHeight l; rh = treeHeight r
      in (if lh > rh then lh else rh) + 1)"

fun left_rotate :: "treeNode \<Rightarrow> error + treeNode" where
  "left_rotate (Node d l (Node rd rl rr)) = Inr (Node rd (Node d l rl) rr)"
| "left_rotate _ = Inl NullDeref"

fun right_rotate :: "treeNode \<Rightarrow> error + treeNode" where
  "right_rotate (Node d (Node ld ll lr) r) = Inr (Node ld ll (Node d lr r))"
| "right_rotate _ = Inl NullDeref"

text \<open>
  The balancing step of \<open>insertNode\<close>, run on the root after the recursive
  insertion.  \<open>balanced\<close> is an \<open>int\<close> assigned from the difference of two
  \<open>uint32_t\<close> heights: the subtraction wraps and the result is read as two's
  complement.
\<close>

definition rebalance :: "uint32 \<Rightarrow> treeNode \<Rightarrow> error + treeNode" where
  "rebalance n root =
     (case root of
        Null \<Rightarrow> Inl NullDeref
      | Node d l r \<Rightarrow>
          (let balanced = sint (treeHeight l - treeHeight r)
           in if balanced > 1 then
                (case l of
                   Null \<Rightarrow> Inl NullDeref
                 | Node ld ll lr \<Rightarrow>
                     if n < ld then right_rotate root
                     else (case left_rotate l of
                             Inl e \<Rightarrow> Inl e
                           | Inr l' \<Rightarrow> right_rotate (Node d l' r)))
              else if balanced < - 1 then
                (case r of
                   Null \<Rightarrow> Inl NullDeref
                 | Node rd rl rr \<Rightarrow>
                     if n > rd then left_rotate root
                     else (case right_rotate r of
                             Inl e \<Rightarrow> Inl e
                           | Inr r' \<Rightarrow> left_rotate (Node d l r')))
              else Inr root))"

fun insertNode :: "uint32 \<Rightarrow> treeNode \<Rightarrow> error + treeNode" where
  "insertNode n Null = Inr (newNode n)"
| "insertNode n (Node d l r) =
     (if n > d then
        (case insertNode n r of
           Inl e \<Rightarrow> Inl e
         | Inr r' \<Rightarrow> rebalance n (Node d l r'))
      else if n < d then
        (case insertNode n l of
           Inl e \<Rightarrow> Inl e
         | Inr l' \<Rightarrow> rebalance n (Node d l' r))
      else rebalance n (Node d l r))"

text \<open>
  \<open>treeSize\<close> counts nodes.  The C function returns \<open>uint32_t\<close>; a tree with
  strictly ordered 32-bit keys has at most \<open>2 ^ 32\<close> nodes and the count is
  taken as a natural number here.  The same holds for the \<open>int\<close> index of
  \<open>treeToArr\<close>.
\<close>

fun treeSize :: "treeNode \<Rightarrow> nat" where
  "treeSize Null = 0"
| "treeSize (Node d l r) = treeSize l + treeSize r + 1"

fun treeEqual :: "treeNode \<Rightarrow> treeNode \<Rightarrow> bool" where
  "treeEqual Null Null = True"
| "treeEqual Null (Node d l r) = False"
| "treeEqual (Node d l r) Null = False"
| "treeEqual (Node d l r) (Node d' l' r') =
     (if d \<noteq> d' then False else treeEqual l l' \<and> treeEqual r r')"

text \<open>
  \<open>treeToArr\<close> writes the keys in order into \<open>arr\<close> from index \<open>i\<close> on and
  returns the next free index.  A write outside the buffer is an error.
\<close>

fun treeToArr :: "treeNode \<Rightarrow> uint32 list \<Rightarrow> nat \<Rightarrow> error + (uint32 list \<times> nat)" where
  "treeToArr Null arr i = Inr (arr, i)"
| "treeToArr (Node d l r) arr i =
     (case (if l \<noteq> Null then treeToArr l arr i else Inr (arr, i)) of
        Inl e \<Rightarrow> Inl e
      | Inr (arr1, i1) \<Rightarrow>
          if i1 < length arr1 then
            (let arr2 = arr1[i1 := d]; i2 = i1 + 1
             in if r \<noteq> Null then treeToArr r arr2 i2 else Inr (arr2, i2))
          else Inl OutOfBounds)"


text \<open>A sequence of insertions, stopping at the first error.\<close>

fun insertNodes :: "uint32 list \<Rightarrow> treeNode \<Rightarrow> error + treeNode" where
  "insertNodes [] t = Inr t"
| "insertNodes (n # ns) t =
     (case insertNode n t of Inl e \<Rightarrow> Inl e | Inr t' \<Rightarrow> insertNodes ns t')"

subsection \<open>The intSet datum\<close>

text \<open>
  Modelled from the spec: the host macros \<open>VARSIZE_ANY_EXHDR\<close>,
  \<open>VARDATA_ANY\<close>, \<open>SET_VARSIZE\<close> and \<open>palloc\<close> (postgres.h) are not in
  src/.  A Value's payload is its elements, four bytes each and nothing else:
  \<open>intset_in\<close> allocates \<open>VARHDRSZ + size * 4\<close> bytes and fills the payload
  with \<open>size\<close> elements.  So a datum is the list of its elements,
  \<open>VARDATA_ANY\<close> is that list and \<open>VARSIZE_ANY_EXHDR\<close> is four times its
  length.
\<close>

type_synonym intSet = "uint32 list"

definition VARSIZE_ANY_EXHDR :: "intSet \<Rightarrow> nat" where
  "VARSIZE_ANY_EXHDR s = 4 * length s"

text \<open>
  A fresh result buffer of \<open>n\<close> elements.  \<open>palloc\<close> does not initialise
  memory; the buffer starts with zeros here and \<open>treeToArr\<close> overwrites every
  slot of it.
\<close>

definition palloc_nums :: "nat \<Rightarrow> uint32 list" where
  "palloc_nums n = replicate n 0"

text \<open>Reading \<open>arr[i]\<close> with a \<open>uint32\<close> index.\<close>

definition array_read :: "uint32 list \<Rightarrow> uint32 \<Rightarrow> error + uint32" where
  "array_read arr i = (if unat i < length arr then Inr (arr ! unat i) else Inl OutOfBounds)"

text \<open>
  The block that ends \<open>intset_in\<close> and every set operation: size the result
  with \<open>treeSize\<close>, allocate it and fill it with \<open>treeToArr\<close>.
\<close>

definition tree_result :: "treeNode \<Rightarrow> error + intSet" where
  "tree_result t =
     (let sz = treeSize t; res_nums = palloc_nums sz
      in case treeToArr t res_nums 0 of
           Inl e \<Rightarrow> Inl e
         | Inr (arr, i) \<Rightarrow> Inr arr)"

subsection \<open>Other operations\<close>

text \<open>
  \<open>binarySearch\<close> works on \<open>uint32\<close> bounds: \<open>mid - 1\<close> wraps to
  \<open>2 ^ 32 - 1\<close> when \<open>mid = 0\<close>, and so does the \<open>size - 1\<close> that the callers
  pass for an empty array.  The recursion need not end on every array, so the
  result is an option: \<open>None\<close> is a search that never returns.
\<close>

partial_function (option) binarySearch ::
  "uint32 list \<Rightarrow> uint32 \<Rightarrow> uint32 \<Rightarrow> uint32 \<Rightarrow> (error + bool) option" where
  "binarySearch n low high target =
     (if high \<ge> low then
        (let mid = low + (high - low) div 2
         in case array_read n mid of
              Inl e \<Rightarrow> Some (Inl e)
            | Inr v \<Rightarrow>
                if v = target then Some (Inr True)
                else if v > target then binarySearch n low (mid - 1) target
                else binarySearch n (mid + 1) high target)
      else Some (Inr False))"

text \<open>The loop of \<open>numsEqual\<close>, from index \<open>i\<close> on.\<close>

function numsEqual_from :: "uint32 list \<Rightarrow> uint32 list \<Rightarrow> uint32 \<Rightarrow> uint32 \<Rightarrow> error + bool" where
  "numsEqual_from a b sz i =
     (if i < sz then
        (case array_read a i of
           Inl e \<Rightarrow> Inl e
         | Inr x \<Rightarrow>
             (case array_read b i of
                Inl e \<Rightarrow> Inl e
              | Inr y \<Rightarrow> if x \<noteq> y then Inr False else numsEqual_from a b sz (i + 1)))
      else Inr True)"
  by pat_completeness auto
termination
proof -
  have step: "unat sz - unat (i + 1) < unat sz - unat i" if "i < sz" for sz i :: uint32
  proof -
    from that have "unat i < unat sz" by (simp add: word_less_nat_alt)
    moreover have "unat sz < 2 ^ 32" using unsigned_less[of sz, where 'a = nat] by simp
    ultimately show ?thesis by (simp add: unat_word_ariths)
  qed
  show ?thesis
    by (relation "measure (\<lambda>(a, b, sz, i). unat sz - unat i)") (auto simp: step)
qed

definition numsEqual :: "uint32 list \<Rightarrow> uint32 list \<Rightarrow> uint32 \<Rightarrow> error + bool" where
  "numsEqual a b sz = numsEqual_from a b sz 0"

subsection \<open>Loops of the set operations\<close>

text \<open>
  \<open>for (i = 0; i < sz; i++) tree = insertNode(nums[i], tree)\<close>, from index
  \<open>i\<close> on.
\<close>

function insert_loop :: "uint32 list \<Rightarrow> uint32 \<Rightarrow> uint32 \<Rightarrow> treeNode \<Rightarrow> error + treeNode" where
  "insert_loop nums sz i tree =
     (if i < sz then
        (case array_read nums i of
           Inl e \<Rightarrow> Inl e
         | Inr x \<Rightarrow>
             (case insertNode x tree of
                Inl e \<Rightarrow> Inl e
              | Inr tree' \<Rightarrow> insert_loop nums sz (i + 1) tree'))
      else Inr tree)"
  by pat_completeness auto
termination
proof -
  have step: "unat sz - unat (i + 1) < unat sz - unat i" if "i < sz" for sz i :: uint32
  proof -
    from that have "unat i < unat sz" by (simp add: word_less_nat_alt)
    moreover have "unat sz < 2 ^ 32" using unsigned_less[of sz, where 'a = nat] by simp
    ultimately show ?thesis by (simp add: unat_word_ariths)
  qed
  show ?thesis
    by (relation "measure (\<lambda>(nums, sz, i, tree). unat sz - unat i)") (auto simp: step)
qed

text \<open>
  \<open>for (i = 0; i < sz; i++) if (binarySearch(other, 0, high, nums[i]) == want)
  tree = insertNode(nums[i], tree)\<close>, from index \<open>i\<close> on.  The intersection
  inserts what the search finds (\<open>want = True\<close>); the two differences insert
  what it does not find (\<open>want = False\<close>).
\<close>

function search_insert_loop ::
  "bool \<Rightarrow> uint32 list \<Rightarrow> uint32 \<Rightarrow> uint32 list \<Rightarrow> uint32 \<Rightarrow> uint32 \<Rightarrow> treeNode
     \<Rightarrow> (error + treeNode) option" where
  "search_insert_loop want nums sz other high i tree =
     (if i < sz then
        (case array_read nums i of
           Inl e \<Rightarrow> Some (Inl e)
         | Inr x \<Rightarrow>
             (case binarySearch other 0 high x of
                None \<Rightarrow> None
              | Some (Inl e) \<Rightarrow> Some (Inl e)
              | Some (Inr found) \<Rightarrow>
                  if found = want then
                    (case insertNode x tree of
                       Inl e \<Rightarrow> Some (Inl e)
                     | Inr tree' \<Rightarrow> search_insert_loop want nums sz other high (i + 1) tree')
                  else search_insert_loop want nums sz other high (i + 1) tree))
      else Some (Inr tree))"
  by pat_completeness auto
termination
proof -
  have step: "unat sz - unat (i + 1) < unat sz - unat i" if "i < sz" for sz i :: uint32
  proof -
    from that have "unat i < unat sz" by (simp add: word_less_nat_alt)
    moreover have "unat sz < 2 ^ 32" using unsigned_less[of sz, where 'a = nat] by simp
    ultimately show ?thesis by (simp add: unat_word_ariths)
  qed
  show ?thesis
    by (relation "measure (\<lambda>(want, nums, sz, other, high, i, tree). unat sz - unat i)") (auto simp: step)
qed

text \<open>
  \<open>for (i = 0; i < sz; i++) if (!binarySearch(other, 0, high, nums[i]))
  { res = false; break; }\<close>, from index \<open>i\<close> on, with the final \<open>res\<close>.
\<close>

function all_found_loop ::
  "uint32 list \<Rightarrow> uint32 \<Rightarrow> uint32 list \<Rightarrow> uint32 \<Rightarrow> uint32 \<Rightarrow> (error + bool) option" where
  "all_found_loop nums sz other high i =
     (if i < sz then
        (case array_read nums i of
           Inl e \<Rightarrow> Some (Inl e)
         | Inr x \<Rightarrow>
             (case binarySearch other 0 high x of
                None \<Rightarrow> None
              | Some (Inl e) \<Rightarrow> Some (Inl e)
              | Some (Inr found) \<Rightarrow>
                  if \<not> found then Some (Inr False)
                  else all_found_loop nums sz other high (i + 1)))
      else Some (Inr True))"
  by pat_completeness auto
termination
proof -
  have step: "unat sz - unat (i + 1) < unat sz - unat i" if "i < sz" for sz i :: uint32
  proof -
    from that have "unat i < unat sz" by (simp add: word_less_nat_alt)
    moreover have "unat sz < 2 ^ 32" using unsigned_less[of sz, where 'a = nat] by simp
    ultimately show ?thesis by (simp add: unat_word_ariths)
  qed
  show ?thesis
    by (relation "measure (\<lambda>(nums, sz, other, high, i). unat sz - unat i)") (auto simp: step)
qed

subsection \<open>Operators\<close>

text \<open>
  Each operator reads its element count as \<open>VARSIZE_ANY_EXHDR(x) / 4\<close> into
  a \<open>uint32\<close>.  An operator that returns early with an empty result
  allocates \<open>VARHDRSZ\<close> bytes only: the empty list.
\<close>

definition intset_union :: "intSet \<Rightarrow> intSet \<Rightarrow> error + intSet" where
  "intset_union a b =
     (let asize = (of_nat (VARSIZE_ANY_EXHDR a div 4) :: uint32);
          bsize = (of_nat (VARSIZE_ANY_EXHDR b div 4) :: uint32)
      in if asize = 0 \<and> bsize = 0 then Inr []
         else (case insert_loop a asize 0 Null of
                 Inl e \<Rightarrow> Inl e
               | Inr u_tree \<Rightarrow>
                   (case insert_loop b bsize 0 u_tree of
                      Inl e \<Rightarrow> Inl e
                    | Inr u_tree' \<Rightarrow> tree_result u_tree')))"

definition intset_intersectn :: "intSet \<Rightarrow> intSet \<Rightarrow> (error + intSet) option" where
  "intset_intersectn a b =
     (let asize = (of_nat (VARSIZE_ANY_EXHDR a div 4) :: uint32);
          bsize = (of_nat (VARSIZE_ANY_EXHDR b div 4) :: uint32)
      in if asize = 0 \<or> bsize = 0 then Some (Inr [])
         else (case (if asize < bsize
                     then search_insert_loop True a asize b (bsize - 1) 0 Null
                     else search_insert_loop True b bsize a (asize - 1) 0 Null) of
                 None \<Rightarrow> None
               | Some (Inl e) \<Rightarrow> Some (Inl e)
               | Some (Inr i_tree) \<Rightarrow> Some (tree_result i_tree)))"

text \<open>Line 311 reads \<open>bsize = VARSIZE_ANY_EXHDR(b)\<close>, without the division.\<close>

definition intset_contain_all :: "intSet \<Rightarrow> intSet \<Rightarrow> (error + bool) option" where
  "intset_contain_all a b =
     (let asize = (of_nat (VARSIZE_ANY_EXHDR a div 4) :: uint32);
          bsize = (of_nat (VARSIZE_ANY_EXHDR b) :: uint32)
      in if asize < bsize then Some (Inr False)
         else all_found_loop b bsize a (asize - 1) 0)"

definition intset_contain_only :: "intSet \<Rightarrow> intSet \<Rightarrow> (error + bool) option" where
  "intset_contain_only a b =
     (let asize = (of_nat (VARSIZE_ANY_EXHDR a div 4) :: uint32);
          bsize = (of_nat (VARSIZE_ANY_EXHDR b div 4) :: uint32)
      in if asize > bsize then Some (Inr False)
         else all_found_loop a asize b (bsize - 1) 0)"

definition intset_equal :: "intSet \<Rightarrow> intSet \<Rightarrow> error + bool" where
  "intset_equal a b =
     (let asize = (of_nat (VARSIZE_ANY_EXHDR a div 4) :: uint32);
          bsize = (of_nat (VARSIZE_ANY_EXHDR b div 4) :: uint32)
      in if asize \<noteq> bsize then Inr False else numsEqual a b asize)"

definition intset_not_equal :: "intSet \<Rightarrow> intSet \<Rightarrow> error + bool" where
  "intset_not_equal a b =
     (let asize = (of_nat (VARSIZE_ANY_EXHDR a div 4) :: uint32);
          bsize = (of_nat (VARSIZE_ANY_EXHDR b div 4) :: uint32)
      in if asize \<noteq> bsize then Inr True
         else (case numsEqual a b asize of Inl e \<Rightarrow> Inl e | Inr eq \<Rightarrow> Inr (\<not> eq)))"

definition intset_contains :: "uint32 \<Rightarrow> intSet \<Rightarrow> (error + bool) option" where
  "intset_contains i a =
     (let asize = (of_nat (VARSIZE_ANY_EXHDR a div 4) :: uint32)
      in if asize = 0 then Some (Inr False)
         else binarySearch a 0 (asize - 1) i)"

definition intset_cardinality :: "intSet \<Rightarrow> 64 word" where
  "intset_cardinality a = of_nat (VARSIZE_ANY_EXHDR a div 4)"

definition intset_disjunctn :: "intSet \<Rightarrow> intSet \<Rightarrow> (error + intSet) option" where
  "intset_disjunctn a b =
     (let asize = (of_nat (VARSIZE_ANY_EXHDR a div 4) :: uint32);
          bsize = (of_nat (VARSIZE_ANY_EXHDR b div 4) :: uint32)
      in case numsEqual a b asize of
           Inl e \<Rightarrow> Some (Inl e)
         | Inr eq \<Rightarrow>
             if eq then Some (Inr [])
             else (case search_insert_loop False a asize b (bsize - 1) 0 Null of
                     None \<Rightarrow> None
                   | Some (Inl e) \<Rightarrow> Some (Inl e)
                   | Some (Inr d_tree) \<Rightarrow>
                       (case search_insert_loop False b bsize a (asize - 1) 0 d_tree of
                          None \<Rightarrow> None
                        | Some (Inl e) \<Rightarrow> Some (Inl e)
                        | Some (Inr d_tree') \<Rightarrow> Some (tree_result d_tree'))))"

definition intset_diff :: "intSet \<Rightarrow> intSet \<Rightarrow> (error + intSet) option" where
  "intset_diff a b =
     (let asize = (of_nat (VARSIZE_ANY_EXHDR a div 4) :: uint32);
          bsize = (of_nat (VARSIZE_ANY_EXHDR b div 4) :: uint32)
      in if asize = 0 then Some (Inr [])
         else (case search_insert_loop False a asize b (bsize - 1) 0 Null of
                 None \<Rightarrow> None
               | Some (Inl e) \<Rightarrow> Some (Inl e)
               | Some (Inr d_tree) \<Rightarrow> Some (tree_result d_tree)))"

subsection \<open>The input pattern\<close>

text \<open>
  \<open>intset_in\<close> checks its text with the C library's \<open>regcomp\<close> and
  \<open>regexec\<close> (not in src/) against a POSIX extended regular expression.
  The expressions are a datatype here, with the operators the pattern uses
  (a literal character, a bracket range, concatenation, \<open>*\<close>, \<open>+\<close>, \<open>?\<close>)
  and the two the matcher needs (alternation and the expression that matches
  nothing).  The matcher takes the derivative of the expression by each
  character of the text in turn.  The pattern is anchored by \<open>^\<close> and \<open>$\<close>,
  so \<open>regexec\<close> succeeds when the whole text matches.  The pattern is a
  constant that compiles, so the \<open>exit\<close> after a failed \<open>regcomp\<close> has no
  branch here.
\<close>

datatype regex =
    NoMatch
  | Empty
  | Chr char
  | Bracket char char
  | Alt regex regex
  | Seq regex regex
  | Star regex
  | Plus regex
  | Opt regex

fun nullable :: "regex \<Rightarrow> bool" where
  "nullable NoMatch = False"
| "nullable Empty = True"
| "nullable (Chr c) = False"
| "nullable (Bracket lo hi) = False"
| "nullable (Alt r s) = (nullable r \<or> nullable s)"
| "nullable (Seq r s) = (nullable r \<and> nullable s)"
| "nullable (Star r) = True"
| "nullable (Plus r) = nullable r"
| "nullable (Opt r) = True"

fun deriv :: "char \<Rightarrow> regex \<Rightarrow> regex" where
  "deriv c NoMatch = NoMatch"
| "deriv c Empty = NoMatch"
| "deriv c (Chr d) = (if c = d then Empty else NoMatch)"
| "deriv c (Bracket lo hi) = (if lo \<le> c \<and> c \<le> hi then Empty else NoMatch)"
| "deriv c (Alt r s) = Alt (deriv c r) (deriv c s)"
| "deriv c (Seq r s) =
     (if nullable r then Alt (Seq (deriv c r) s) (deriv c s) else Seq (deriv c r) s)"
| "deriv c (Star r) = Seq (deriv c r) (Star r)"
| "deriv c (Plus r) = Seq (deriv c r) (Star r)"
| "deriv c (Opt r) = deriv c r"

fun regexec :: "regex \<Rightarrow> string \<Rightarrow> bool" where
  "regexec r [] = nullable r"
| "regexec r (c # cs) = regexec (deriv c r) cs"

text \<open>The pattern \<^verbatim>\<open>^ *\{ *(( *[0-9]+ *, *)* *[0-9]+ *)? *\} *$\<close>.\<close>

definition intset_pattern :: regex where
  "intset_pattern =
     Seq (Star (Chr CHR '' ''))
    (Seq (Chr CHR ''{'')
    (Seq (Star (Chr CHR '' ''))
    (Seq (Opt
           (Seq (Star
                  (Seq (Star (Chr CHR '' ''))
                  (Seq (Plus (Bracket CHR ''0'' CHR ''9''))
                  (Seq (Star (Chr CHR '' ''))
                  (Seq (Chr CHR '','')
                       (Star (Chr CHR '' '')))))))
           (Seq (Star (Chr CHR '' ''))
           (Seq (Plus (Bracket CHR ''0'' CHR ''9''))
                (Star (Chr CHR '' ''))))))
    (Seq (Star (Chr CHR '' ''))
    (Seq (Chr CHR ''}'')
         (Star (Chr CHR '' '')))))))"

subsection \<open>Input and output functions\<close>

text \<open>
  The scanning loop of \<open>intset_in\<close> over the characters of the text, with
  the accumulator \<open>curr_num\<close> (a \<open>uint32_t\<close>: \<open>* 10\<close> and \<open>+\<close> wrap), the
  flag and the tree built so far.
\<close>

fun scan :: "string \<Rightarrow> uint32 \<Rightarrow> bool \<Rightarrow> treeNode \<Rightarrow> error + treeNode" where
  "scan [] curr_num flag tempNums = Inr tempNums"
| "scan (c # cs) curr_num flag tempNums =
     (if c \<le> CHR ''9'' \<and> c \<ge> CHR ''0'' then
        scan cs (curr_num * 10 + of_nat (of_char c - of_char CHR ''0'')) True tempNums
      else if flag then
        (case insertNode curr_num tempNums of
           Inl e \<Rightarrow> Inl e
         | Inr tempNums' \<Rightarrow> scan cs 0 False tempNums')
      else scan cs curr_num flag tempNums)"

definition intset_in :: "string \<Rightarrow> error + intSet" where
  "intset_in str =
     (if \<not> regexec intset_pattern str then Inl InvalidSyntax
      else (case scan str 0 False Null of
              Inl e \<Rightarrow> Inl e
            | Inr tempNums \<Rightarrow> tree_result tempNums))"

subsection \<open>Output\<close>

text \<open>
  Modelled from the spec: \<open>log10\<close> (libm) and \<open>psprintf\<close> (the host) are
  not in src/.  The specification asks for the decimal digit width of an
  element and for its decimal text without leading zeros.  \<open>log10_trunc x\<close>
  is \<open>(uint32_t) log10(x)\<close> for \<open>x > 0\<close>, taken to be the exact integer
  logarithm, one less than the number of decimal digits; \<open>psprintf_u x\<close> is
  the text that \<open>psprintf("%u,", x)\<close> returns.
\<close>

fun log10_trunc :: "nat \<Rightarrow> nat" where
  "log10_trunc n = (if n < 10 then 0 else log10_trunc (n div 10) + 1)"

fun utoa :: "nat \<Rightarrow> string" where
  "utoa n =
     (if n < 10 then [''0123456789'' ! n]
      else utoa (n div 10) @ [''0123456789'' ! (n mod 10)])"

definition psprintf_u :: "uint32 \<Rightarrow> string" where
  "psprintf_u x = utoa (unat x) @ '',''"

text \<open>
  Character buffers.  A fresh buffer starts with zero bytes here (\<open>palloc\<close>
  does not initialise it; \<open>intset_out\<close> writes every byte).  \<open>memcpy\<close>
  copies \<open>n\<close> bytes of \<open>src\<close> to \<open>dest\<close> from offset \<open>off\<close> on; leaving
  either buffer is an error.  A buffer is returned as a C string: the
  characters before its first zero byte.
\<close>

definition palloc_chars :: "nat \<Rightarrow> string" where
  "palloc_chars n = replicate n (CHR 0x00)"

definition char_write :: "string \<Rightarrow> nat \<Rightarrow> char \<Rightarrow> error + string" where
  "char_write buf i c = (if i < length buf then Inr (buf[i := c]) else Inl OutOfBounds)"

definition memcpy :: "string \<Rightarrow> nat \<Rightarrow> string \<Rightarrow> nat \<Rightarrow> error + string" where
  "memcpy dest off src n =
     (if off + n \<le> length dest \<and> n \<le> length src
      then Inr (take off dest @ take n src @ drop (off + n) dest)
      else Inl OutOfBounds)"

definition cstring :: "string \<Rightarrow> error + string" where
  "cstring buf =
     (if CHR 0x00 \<in> set buf then Inr (takeWhile (\<lambda>c. c \<noteq> CHR 0x00) buf)
      else Inl OutOfBounds)"

text \<open>
  The first loop of \<open>intset_out\<close> adds up the digit widths; the second
  copies each element's text and its comma into the result.  \<open>res_len\<close>,
  \<open>sofar\<close> and \<open>curr_len\<close> are \<open>uint32_t\<close> in C and natural numbers here:
  they stay below \<open>2 ^ 32\<close> for every datum the host can hold (less than
  \<open>2 ^ 28\<close> elements of at most ten digits).
\<close>

function out_len_loop :: "uint32 list \<Rightarrow> uint32 \<Rightarrow> uint32 \<Rightarrow> nat \<Rightarrow> error + nat" where
  "out_len_loop nums sz i res_len =
     (if i < sz then
        (case array_read nums i of
           Inl e \<Rightarrow> Inl e
         | Inr x \<Rightarrow>
             out_len_loop nums sz (i + 1)
               (if x \<noteq> 0 then res_len + (log10_trunc (unat x) + 1) else res_len + 1))
      else Inr res_len)"
  by pat_completeness auto
termination
proof -
  have step: "unat sz - unat (i + 1) < unat sz - unat i" if "i < sz" for sz i :: uint32
  proof -
    from that have "unat i < unat sz" by (simp add: word_less_nat_alt)
    moreover have "unat sz < 2 ^ 32" using unsigned_less[of sz, where 'a = nat] by simp
    ultimately show ?thesis by (simp add: unat_word_ariths)
  qed
  show ?thesis
    by (relation "measure (\<lambda>(nums, sz, i, res_len). unat sz - unat i)") (auto simp: step)
qed

function out_copy_loop ::
  "uint32 list \<Rightarrow> uint32 \<Rightarrow> uint32 \<Rightarrow> string \<Rightarrow> nat \<Rightarrow> error + (string \<times> nat)" where
  "out_copy_loop nums sz i result sofar =
     (if i < sz then
        (case array_read nums i of
           Inl e \<Rightarrow> Inl e
         | Inr x \<Rightarrow>
             (let temp = psprintf_u x @ [CHR 0x00];
                  curr_len = (if x \<noteq> 0 then log10_trunc (unat x) + 2 else 2)
              in case memcpy result sofar temp curr_len of
                   Inl e \<Rightarrow> Inl e
                 | Inr result' \<Rightarrow> out_copy_loop nums sz (i + 1) result' (sofar + curr_len)))
      else Inr (result, sofar))"
  by pat_completeness auto
termination
proof -
  have step: "unat sz - unat (i + 1) < unat sz - unat i" if "i < sz" for sz i :: uint32
  proof -
    from that have "unat i < unat sz" by (simp add: word_less_nat_alt)
    moreover have "unat sz < 2 ^ 32" using unsigned_less[of sz, where 'a = nat] by simp
    ultimately show ?thesis by (simp add: unat_word_ariths)
  qed
  show ?thesis
    by (relation "measure (\<lambda>(nums, sz, i, result, sofar). unat sz - unat i)") (auto simp: step)
qed

definition intset_out :: "intSet \<Rightarrow> error + string" where
  "intset_out intset =
     (let intset_size = (of_nat (VARSIZE_ANY_EXHDR intset div 4) :: uint32)
      in if intset_size = 0 then Inr ''{}''
         else
           (case out_len_loop intset intset_size 0 0 of
              Inl e \<Rightarrow> Inl e
            | Inr n \<Rightarrow>
                (let res_len = n + unat intset_size + 2
                 in case char_write (palloc_chars res_len) 0 CHR ''{'' of
                      Inl e \<Rightarrow> Inl e
                    | Inr result0 \<Rightarrow>
                        (case out_copy_loop intset intset_size 0 result0 1 of
                           Inl e \<Rightarrow> Inl e
                         | Inr (result1, sofar) \<Rightarrow>
                             (case char_write result1 (res_len - 2) CHR ''}'' of
                                Inl e \<Rightarrow> Inl e
                              | Inr result2 \<Rightarrow>
                                  (case char_write result2 (res_len - 1) (CHR 0x00) of
                                     Inl e \<Rightarrow> Inl e
                                   | Inr result3 \<Rightarrow> cstring result3))))))"

section \<open>Notions of the specification\<close>

text \<open>
  The height of a tree as a natural number, its key set, its in-order key
  sequence, the search-tree ordering and the balance condition of the
  construction tree.
\<close>

fun height :: "treeNode \<Rightarrow> nat" where
  "height Null = 0"
| "height (Node d l r) = max (height l) (height r) + 1"

fun keys :: "treeNode \<Rightarrow> uint32 set" where
  "keys Null = {}"
| "keys (Node d l r) = insert d (keys l \<union> keys r)"

fun inorder :: "treeNode \<Rightarrow> uint32 list" where
  "inorder Null = []"
| "inorder (Node d l r) = inorder l @ d # inorder r"

fun bst :: "treeNode \<Rightarrow> bool" where
  "bst Null = True"
| "bst (Node d l r) = (bst l \<and> bst r \<and> (\<forall>x \<in> keys l. x < d) \<and> (\<forall>x \<in> keys r. d < x))"

fun balanced :: "treeNode \<Rightarrow> bool" where
  "balanced Null = True"
| "balanced (Node d l r) =
     (balanced l \<and> balanced r \<and> int (height l) - int (height r) \<in> {- 1, 0, 1})"


text \<open>
  The shape of a tree that has just grown by inserting \<open>n\<close> below its root:
  the side that took \<open>n\<close> is the higher one.
\<close>

definition grown :: "uint32 \<Rightarrow> treeNode \<Rightarrow> bool" where
  "grown n t = (case t of Null \<Rightarrow> False
     | Node d l r \<Rightarrow> n \<noteq> d \<and> (n < d \<longrightarrow> height l = height r + 1)
                     \<and> (d < n \<longrightarrow> height r = height l + 1))"

subsection \<open>Languages\<close>

text \<open>
  The language of an expression: the texts it matches.  \<open>conc\<close> is
  concatenation of languages and \<open>star\<close> is repetition.
\<close>

definition conc :: "string set \<Rightarrow> string set \<Rightarrow> string set" where
  "conc A B = {u @ v | u v. u \<in> A \<and> v \<in> B}"

inductive_set star :: "string set \<Rightarrow> string set" for A :: "string set" where
  star_nil: "[] \<in> star A"
| star_app: "u \<in> A \<Longrightarrow> v \<in> star A \<Longrightarrow> u @ v \<in> star A"

fun lang :: "regex \<Rightarrow> string set" where
  "lang NoMatch = {}"
| "lang Empty = {[]}"
| "lang (Chr c) = {[c]}"
| "lang (Bracket lo hi) = {[c] | c. lo \<le> c \<and> c \<le> hi}"
| "lang (Alt r s) = lang r \<union> lang s"
| "lang (Seq r s) = conc (lang r) (lang s)"
| "lang (Star r) = star (lang r)"
| "lang (Plus r) = conc (lang r) (star (lang r))"
| "lang (Opt r) = lang r \<union> {[]}"

text \<open>
  The grammar in the words of the specification: optional spaces, \<open>{\<close>,
  optional spaces, optionally a list (any number of items "digits, optional
  spaces, comma, optional spaces", then digits and optional spaces), \<open>}\<close>,
  optional spaces.
\<close>

definition optional_spaces :: regex where
  "optional_spaces = Star (Chr CHR '' '')"

definition digits :: regex where
  "digits = Plus (Bracket CHR ''0'' CHR ''9'')"

definition spec_grammar :: regex where
  "spec_grammar =
     Seq optional_spaces
    (Seq (Chr CHR ''{'')
    (Seq optional_spaces
    (Seq (Opt
           (Seq (Star
                  (Seq digits (Seq optional_spaces (Seq (Chr CHR '','') optional_spaces))))
           (Seq digits optional_spaces)))
    (Seq (Chr CHR ''}'') optional_spaces))))"

subsection \<open>Buffers, digit runs and canonical Values\<close>

text \<open>The buffer \<open>arr\<close> with the elements \<open>xs\<close> written from index \<open>i\<close> on.\<close>

definition written :: "'a list \<Rightarrow> nat \<Rightarrow> 'a list \<Rightarrow> 'a list" where
  "written arr i xs = take i arr @ xs @ drop (i + length xs) arr"

text \<open>
  The digit runs of a text: the text is cut at every character that is not
  a decimal digit, and the pieces that are not empty are the runs.  The
  decimal value of a run is a natural number.
\<close>

definition is_digit :: "char \<Rightarrow> bool" where
  "is_digit c = (CHR ''0'' \<le> c \<and> c \<le> CHR ''9'')"

fun fields :: "string \<Rightarrow> string list" where
  "fields [] = [[]]"
| "fields (c # cs) =
     (if is_digit c
      then (case fields cs of [] \<Rightarrow> [[c]] | f # fs \<Rightarrow> (c # f) # fs)
      else [] # fields cs)"

definition digit_runs :: "string \<Rightarrow> string list" where
  "digit_runs s = filter (\<lambda>r. r \<noteq> []) (fields s)"

definition dec_value :: "string \<Rightarrow> nat" where
  "dec_value r = foldl (\<lambda>a c. 10 * a + (of_char c - of_char CHR ''0'')) 0 r"

text \<open>
  The canonical form of a Value: strictly increasing elements, none twice,
  and as many elements as its count (the payload size over four).
\<close>

definition canonical :: "intSet \<Rightarrow> bool" where
  "canonical v =
     (sorted_wrt (<) v \<and> distinct v \<and> length v = VARSIZE_ANY_EXHDR v div 4)"

subsection \<open>Rendered text\<close>

text \<open>
  The text of a non-empty Value in the words of the specification: the
  elements in decimal, one comma between neighbours, in braces.
\<close>

fun join_commas :: "string list \<Rightarrow> string" where
  "join_commas [] = []"
| "join_commas [w] = w"
| "join_commas (w # w' # ws) = w @ CHR '','' # join_commas (w' # ws)"

definition render_text :: "intSet \<Rightarrow> string" where
  "render_text v = CHR ''{'' # join_commas (map (\<lambda>x. utoa (unat x)) v) @ ''}''"

text \<open>
  The loops are unfolded on demand only.  The facts below evaluate the model
  on concrete inputs.
\<close>

declare numsEqual_from.simps [simp del] insert_loop.simps [simp del]
  search_insert_loop.simps [simp del] all_found_loop.simps [simp del]
  log10_trunc.simps [simp del] utoa.simps [simp del]
  out_len_loop.simps [simp del] out_copy_loop.simps [simp del]

lemmas eval_defs = VARSIZE_ANY_EXHDR_def array_read_def binarySearch.simps numsEqual_def
  tree_result_def palloc_nums_def newNode_def rebalance_def Let_def

lemmas scan_eval = intset_in_def intset_pattern_def numsEqual_from.simps insert_loop.simps
  search_insert_loop.simps all_found_loop.simps

lemmas out_eval = intset_out_def out_len_loop.simps out_copy_loop.simps log10_trunc.simps
  utoa.simps psprintf_u_def palloc_chars_def char_write_def memcpy_def cstring_def

section \<open>The construction tree\<close>

lemma set_inorder: "set (inorder t) = keys t"
  by (induction t) auto

lemma length_inorder: "length (inorder t) = treeSize t"
  by (induction t) auto

lemma bst_sorted: "bst t \<Longrightarrow> sorted_wrt (<) (inorder t)"
  by (induction t) (force simp: sorted_wrt_append set_inorder intro: less_trans)+

lemma sorted_bst: "sorted_wrt (<) (inorder t) \<Longrightarrow> bst t"
  by (induction t) (auto simp: sorted_wrt_append set_inorder)

lemma bst_size_le: "bst t \<Longrightarrow> treeSize t \<le> 2 ^ 32"
proof -
  assume "bst t"
  then have "distinct (inorder t)"
    using bst_sorted strict_sorted_iff by blast
  then have "length (inorder t) = card (set (inorder t))"
    by (simp add: distinct_card)
  also have "\<dots> \<le> card (UNIV :: uint32 set)"
    by (rule card_mono) auto
  also have "\<dots> = 2 ^ 32" by (simp add: card_word)
  finally show ?thesis by (simp add: length_inorder)
qed

lemma balanced_size: "balanced t \<Longrightarrow> 2 ^ (height t div 2) \<le> treeSize t + 1"
proof (induction t)
  case Null
  then show ?case by simp
next
  case (Node d l r)
  let ?h = "height (Node d l r)"
  from Node.prems have bl: "balanced l" and br: "balanced r" by auto
  show ?case
  proof (cases "?h < 2")
    case True
    then have "?h div 2 = 0" by simp
    then show ?thesis by simp
  next
    case False
    from Node.prems have "height l \<ge> ?h - 2" "height r \<ge> ?h - 2" by auto
    then have "(?h - 2) div 2 \<le> height l div 2" "(?h - 2) div 2 \<le> height r div 2"
      by (simp_all add: div_le_mono)
    then have "(2::nat) ^ ((?h - 2) div 2) \<le> 2 ^ (height l div 2)"
        "(2::nat) ^ ((?h - 2) div 2) \<le> 2 ^ (height r div 2)"
      by (simp_all add: power_increasing)
    with Node.IH bl br have "2 * (2::nat) ^ ((?h - 2) div 2) \<le> treeSize l + 1 + (treeSize r + 1)"
      by linarith
    moreover have "\<And>h::nat. \<not> h < 2 \<Longrightarrow> h div 2 = Suc ((h - 2) div 2)" by arith
    from this[OF False] have "?h div 2 = Suc ((?h - 2) div 2)" .
    ultimately show ?thesis by simp
  qed
qed


lemma height_bound: "bst t \<Longrightarrow> balanced t \<Longrightarrow> height t < 66"
proof (rule ccontr)
  assume b: "bst t" and a: "balanced t" and "\<not> height t < 66"
  then have "33 \<le> height t div 2" by simp
  then have "(2::nat) ^ 33 \<le> 2 ^ (height t div 2)"
    by (rule power_increasing) simp
  also have "\<dots> \<le> treeSize t + 1" using a by (rule balanced_size)
  also have "\<dots> \<le> 2 ^ 32 + 1" using bst_size_le[OF b] by simp
  finally show False by simp
qed

lemma treeHeight_unat: "height t < 2 ^ 32 \<Longrightarrow> unat (treeHeight t) = height t"
proof (induction t)
  case Null
  then show ?case by simp
next
  case (Node d l r)
  then have hl: "unat (treeHeight l) = height l" and hr: "unat (treeHeight r) = height r"
    and lt: "max (height l) (height r) + 1 < 2 ^ 32" by auto
  have "unat (if treeHeight l > treeHeight r then treeHeight l else treeHeight r)
          = max (height l) (height r)"
    using hl hr by (auto simp: word_less_nat_alt)
  moreover from this lt
  have "unat ((if treeHeight l > treeHeight r then treeHeight l else treeHeight r) + 1)
          = max (height l) (height r) + 1"
    using unat_add_lem[of "if treeHeight l > treeHeight r then treeHeight l else treeHeight r" 1]
    by simp
  ultimately show ?case by (simp add: Let_def)
qed

lemma sint_of_nat_diff:
  assumes "a < 2 ^ 31" "b < 2 ^ 31"
  shows "sint (word_of_nat a - word_of_nat b :: 32 word) = int a - int b"
proof -
  have eq: "(word_of_nat a - word_of_nat b :: 32 word) = word_of_int (int a - int b)"
    by simp
  have "signed_take_bit (LENGTH(32) - Suc 0) (int a - int b) = int a - int b"
    using assms by (intro signed_take_bit_int_eq_self) simp_all
  then show ?thesis
    by (subst eq, subst signed_of_int) simp
qed

lemma balance_sint:
  assumes "height l < 2 ^ 31" "height r < 2 ^ 31"
  shows "sint (treeHeight l - treeHeight r) = int (height l) - int (height r)"
proof -
  from assms have u: "height l = unat (treeHeight l)" "height r = unat (treeHeight r)"
    by (simp_all add: treeHeight_unat)
  have "treeHeight l = of_nat (height l)" "treeHeight r = of_nat (height r)"
    unfolding u by simp_all
  then show ?thesis using sint_of_nat_diff[OF assms] by simp
qed


lemma balance_small:
  assumes "bst l" "balanced l" "bst r" "balanced r"
  shows "sint (treeHeight l - treeHeight r) = int (height l) - int (height r)"
proof -
  have "height l < 66" "height r < 66" using assms by (simp_all add: height_bound)
  then have "height l < 2 ^ 31" "height r < 2 ^ 31" by simp_all
  then show ?thesis by (rule balance_sint)
qed

lemma rebalance_keep:
  assumes "bst l" "balanced l" "bst r" "balanced r"
    and "int (height l) - int (height r) \<in> {- 1, 0, 1}"
  shows "rebalance n (Node d l r) = Inr (Node d l r)"
  using assms(5) by (auto simp: rebalance_def balance_small[OF assms(1-4)])

lemma rebalance_left:
  assumes b: "bst (Node d l r)" and bl: "balanced l" and br: "balanced r"
    and h: "height l = height r + 2" and g: "grown n l"
  shows "\<exists>t'. rebalance n (Node d l r) = Inr t' \<and> bst t' \<and> balanced t'
            \<and> keys t' = keys (Node d l r) \<and> height t' = height r + 2"
proof -
  from b have bs: "bst l" "bst r" by auto
  from g obtain ld ll lr where l: "l = Node ld ll lr" by (cases l) (auto simp: grown_def)
  have "sint (treeHeight l - treeHeight r) = 2"
    using balance_small[OF bs(1) bl bs(2) br] h by simp
  then have bv: "sint (treeHeight (Node ld ll lr) - treeHeight r) = 2"
    unfolding l .
  show ?thesis
  proof (cases "n < ld")
    case True
    with g l have hh: "height ll = height lr + 1" by (simp add: grown_def)
    let ?t = "Node ld ll (Node d lr r)"
    have "rebalance n (Node d l r) = Inr ?t"
      using bv True by (simp add: rebalance_def l del: treeHeight.simps)
    moreover have "bst ?t"
      using b unfolding l by auto
    moreover have "balanced ?t" "height ?t = height r + 2"
      using bl br h hh unfolding l by auto
    moreover have "keys ?t = keys (Node d l r)"
      unfolding l by auto
    ultimately show ?thesis by blast
  next
    case False
    with g l have hh: "height lr = height ll + 1" by (auto simp: grown_def)
    then obtain lrd lrl lrr where lr: "lr = Node lrd lrl lrr" by (cases lr) auto
    let ?t = "Node lrd (Node ld ll lrl) (Node d lrr r)"
    have "rebalance n (Node d l r) = Inr ?t"
      using bv False by (simp add: rebalance_def l lr del: treeHeight.simps)
    moreover have "bst ?t"
      using b unfolding l lr by auto
    moreover have "balanced ?t" "height ?t = height r + 2"
      using bl br h hh unfolding l lr by (auto simp: max_def split: if_splits)
    moreover have "keys ?t = keys (Node d l r)"
      unfolding l lr by auto
    ultimately show ?thesis by blast
  qed
qed

lemma rebalance_right:
  assumes b: "bst (Node d l r)" and bl: "balanced l" and br: "balanced r"
    and h: "height r = height l + 2" and g: "grown n r"
  shows "\<exists>t'. rebalance n (Node d l r) = Inr t' \<and> bst t' \<and> balanced t'
            \<and> keys t' = keys (Node d l r) \<and> height t' = height l + 2"
proof -
  from b have bs: "bst l" "bst r" by auto
  from g obtain rd rl rr where r: "r = Node rd rl rr" by (cases r) (auto simp: grown_def)
  have "sint (treeHeight l - treeHeight r) = - 2"
    using balance_small[OF bs(1) bl bs(2) br] h by simp
  then have bv: "sint (treeHeight l - treeHeight (Node rd rl rr)) = - 2"
    unfolding r .
  show ?thesis
  proof (cases "n > rd")
    case True
    with g r have hh: "height rr = height rl + 1" by (simp add: grown_def)
    let ?t = "Node rd (Node d l rl) rr"
    have "rebalance n (Node d l r) = Inr ?t"
      using bv True by (simp add: rebalance_def r del: treeHeight.simps)
    moreover have "bst ?t"
      using b unfolding r by auto
    moreover have "balanced ?t" "height ?t = height l + 2"
      using bl br h hh unfolding r by auto
    moreover have "keys ?t = keys (Node d l r)"
      unfolding r by auto
    ultimately show ?thesis by blast
  next
    case False
    with g r have hh: "height rl = height rr + 1" by (auto simp: grown_def)
    then obtain rld rll rlr where rl: "rl = Node rld rll rlr" by (cases rl) auto
    let ?t = "Node rld (Node d l rll) (Node rd rlr rr)"
    have "rebalance n (Node d l r) = Inr ?t"
      using bv False by (simp add: rebalance_def r rl del: treeHeight.simps)
    moreover have "bst ?t"
      using b unfolding r rl by auto
    moreover have "balanced ?t" "height ?t = height l + 2"
      using bl br h hh unfolding r rl by (auto simp: max_def split: if_splits)
    moreover have "keys ?t = keys (Node d l r)"
      unfolding r rl by auto
    ultimately show ?thesis by blast
  qed
qed


lemma insertNode_inv:
  "bst t \<Longrightarrow> balanced t \<Longrightarrow>
     \<exists>t'. insertNode n t = Inr t' \<and> bst t' \<and> balanced t' \<and> keys t' = insert n (keys t)
        \<and> (height t' = height t \<or> (height t' = height t + 1 \<and> (t \<noteq> Null \<longrightarrow> grown n t')))"
proof (induction t)
  case Null
  then show ?case by (simp add: newNode_def)
next
  case (Node d l r)
  from Node.prems have bl: "bst l" "balanced l" and br: "bst r" "balanced r"
    and kl: "\<forall>x\<in>keys l. x < d" and kr: "\<forall>x\<in>keys r. d < x"
    and bal: "int (height l) - int (height r) \<in> {- 1, 0, 1}" by auto
  consider (gt) "n > d" | (lt) "n < d" | (eq) "n = d" by (meson not_less_iff_gr_or_eq)
  then show ?case
  proof cases
    case eq
    then have "insertNode n (Node d l r) = Inr (Node d l r)"
      using rebalance_keep[OF bl br bal] by simp
    with Node.prems eq show ?thesis by auto
  next
    case gt
    from Node.IH(2)[OF br] obtain r' where r': "insertNode n r = Inr r'" "bst r'" "balanced r'"
      "keys r' = insert n (keys r)"
      and hr': "height r' = height r \<or> (height r' = height r + 1 \<and> (r \<noteq> Null \<longrightarrow> grown n r'))"
      by blast
    have ins: "insertNode n (Node d l r) = rebalance n (Node d l r')"
      using gt r'(1) by simp
    have bst': "bst (Node d l r')" using bl kl kr r' gt by auto
    show ?thesis
    proof (cases "height r' = height l + 2")
      case True
      with hr' bal have "height r' = height r + 1" "r \<noteq> Null" by auto
      with hr' have "grown n r'" by auto
      from rebalance_right[OF bst' bl(2) r'(3) True this]
      obtain t' where "rebalance n (Node d l r') = Inr t'" "bst t'" "balanced t'"
        "keys t' = keys (Node d l r')" "height t' = height l + 2" by blast
      moreover have "height (Node d l r) = height l + 2"
        using True \<open>height r' = height r + 1\<close> by simp
      ultimately show ?thesis using ins r'(4) by auto
    next
      case False
      with hr' bal have bal': "int (height l) - int (height r') \<in> {- 1, 0, 1}" by auto
      have "rebalance n (Node d l r') = Inr (Node d l r')"
        by (rule rebalance_keep[OF bl r'(2,3) bal'])
      moreover have "balanced (Node d l r')" using bl r' bal' by simp
      moreover have "height (Node d l r') = height (Node d l r)
          \<or> (height (Node d l r') = height (Node d l r) + 1 \<and> grown n (Node d l r'))"
        using hr' bal' gt by (auto simp: grown_def)
      ultimately show ?thesis using ins bst' r'(4) by auto
    qed
  next
    case lt
    from Node.IH(1)[OF bl] obtain l' where l': "insertNode n l = Inr l'" "bst l'" "balanced l'"
      "keys l' = insert n (keys l)"
      and hl': "height l' = height l \<or> (height l' = height l + 1 \<and> (l \<noteq> Null \<longrightarrow> grown n l'))"
      by blast
    have ins: "insertNode n (Node d l r) = rebalance n (Node d l' r)"
    proof -
      from lt have "\<not> d < n" by simp
      with lt l'(1) show ?thesis by simp
    qed
    have bst': "bst (Node d l' r)" using br kl kr l' lt by auto
    show ?thesis
    proof (cases "height l' = height r + 2")
      case True
      with hl' bal have "height l' = height l + 1" "l \<noteq> Null" by auto
      with hl' have "grown n l'" by auto
      from rebalance_left[OF bst' l'(3) br(2) True this]
      obtain t' where "rebalance n (Node d l' r) = Inr t'" "bst t'" "balanced t'"
        "keys t' = keys (Node d l' r)" "height t' = height r + 2" by blast
      moreover have "height (Node d l r) = height r + 2"
        using True \<open>height l' = height l + 1\<close> by simp
      ultimately show ?thesis using ins l'(4) by auto
    next
      case False
      with hl' bal have bal': "int (height l') - int (height r) \<in> {- 1, 0, 1}" by auto
      have "rebalance n (Node d l' r) = Inr (Node d l' r)"
        by (rule rebalance_keep[OF l'(2,3) br bal'])
      moreover have "balanced (Node d l' r)" using br l' bal' by simp
      moreover have "height (Node d l' r) = height (Node d l r)
          \<or> (height (Node d l' r) = height (Node d l r) + 1 \<and> grown n (Node d l' r))"
        using hl' bal' lt by (auto simp: grown_def)
      ultimately show ?thesis using ins bst' l'(4) by auto
    qed
  qed
qed


lemma insertNodes_inv:
  "bst t \<Longrightarrow> balanced t \<Longrightarrow>
     \<exists>t'. insertNodes ns t = Inr t' \<and> bst t' \<and> balanced t' \<and> keys t' = set ns \<union> keys t"
proof (induction ns arbitrary: t)
  case Nil
  then show ?case by simp
next
  case (Cons n ns)
  from insertNode_inv[OF Cons.prems, of n] obtain t1 where
    t1: "insertNode n t = Inr t1" "bst t1" "balanced t1" "keys t1 = insert n (keys t)"
    by blast
  from Cons.IH[OF t1(2,3)] t1(1,4) show ?case by auto
qed

text \<open>
  C8: every tree built from the empty tree by a sequence of insertions is a
  search tree (keys of the left subtree below the node's key, keys of the
  right subtree above it) and at every node the heights of the two subtrees
  differ by at most one.  No insertion of the sequence fails.
\<close>

theorem construction_tree_invariant:
  "\<exists>t. insertNodes ns Null = Inr t \<and> bst t \<and> balanced t"
  using insertNodes_inv[of Null ns] by auto

theorem construction_tree_invariant_witness:
  "insertNodes [1, 2, 3] Null = Inr (Node 2 (Node 1 Null Null) (Node 3 Null Null))
   \<and> bst (Node 2 (Node 1 Null Null) (Node 3 Null Null))
   \<and> balanced (Node 2 (Node 1 Null Null) (Node 3 Null Null))"
  using construction_tree_invariant[of "[1, 2, 3]"]
  by (simp add: newNode_def rebalance_def)

section \<open>The pattern and the grammar\<close>

lemma conc_nil_iff: "[] \<in> conc A B \<longleftrightarrow> [] \<in> A \<and> [] \<in> B"
  by (auto simp: conc_def)

lemma conc_cons_iff:
  "c # w \<in> conc A B \<longleftrightarrow>
     (\<exists>u v. w = u @ v \<and> c # u \<in> A \<and> v \<in> B) \<or> ([] \<in> A \<and> c # w \<in> B)"
proof
  assume "c # w \<in> conc A B"
  then obtain u v where uv: "c # w = u @ v" "u \<in> A" "v \<in> B" by (auto simp: conc_def)
  show "(\<exists>u v. w = u @ v \<and> c # u \<in> A \<and> v \<in> B) \<or> ([] \<in> A \<and> c # w \<in> B)"
  proof (cases u)
    case Nil
    with uv show ?thesis by simp
  next
    case (Cons a u')
    with uv show ?thesis by auto
  qed
next
  assume "(\<exists>u v. w = u @ v \<and> c # u \<in> A \<and> v \<in> B) \<or> ([] \<in> A \<and> c # w \<in> B)"
  then show "c # w \<in> conc A B"
  proof
    assume "\<exists>u v. w = u @ v \<and> c # u \<in> A \<and> v \<in> B"
    then obtain u v where "w = u @ v" "c # u \<in> A" "v \<in> B" by blast
    then have "(c # u) @ v \<in> conc A B" unfolding conc_def by blast
    with \<open>w = u @ v\<close> show ?thesis by simp
  next
    assume "[] \<in> A \<and> c # w \<in> B"
    then have "[] @ (c # w) \<in> conc A B" unfolding conc_def by blast
    then show ?thesis by simp
  qed
qed

lemma star_cons_iff:
  "c # w \<in> star A \<longleftrightarrow> (\<exists>u v. w = u @ v \<and> c # u \<in> A \<and> v \<in> star A)"
proof
  assume "c # w \<in> star A"
  then show "\<exists>u v. w = u @ v \<and> c # u \<in> A \<and> v \<in> star A"
  proof (induction "c # w" rule: star.induct)
    case (star_app u v)
    show ?case
    proof (cases u)
      case Nil
      with star_app show ?thesis by simp
    next
      case (Cons a u')
      with star_app show ?thesis by auto
    qed
  qed
next
  assume "\<exists>u v. w = u @ v \<and> c # u \<in> A \<and> v \<in> star A"
  then obtain u v where "w = u @ v" "c # u \<in> A" "v \<in> star A" by blast
  then have "(c # u) @ v \<in> star A" by (intro star_app)
  with \<open>w = u @ v\<close> show "c # w \<in> star A" by simp
qed

lemma nullable_lang: "nullable r \<longleftrightarrow> [] \<in> lang r"
  by (induction r) (auto simp: conc_nil_iff star_nil)

lemma conc_deriv_iff:
  assumes "\<And>u. u \<in> A' \<longleftrightarrow> c # u \<in> A"
  shows "w \<in> conc A' B \<longleftrightarrow> (\<exists>u v. w = u @ v \<and> c # u \<in> A \<and> v \<in> B)"
  unfolding conc_def using assms by auto

lemma lang_deriv: "w \<in> lang (deriv c r) \<longleftrightarrow> c # w \<in> lang r"
proof (induction r arbitrary: w)
  case (Seq r s)
  show ?case
    using Seq.IH(2)
    by (auto simp: conc_deriv_iff[of "lang (deriv c r)" c "lang r", OF Seq.IH(1)]
          conc_cons_iff nullable_lang)
next
  case (Star r)
  show ?case
    by (simp add: conc_deriv_iff[of "lang (deriv c r)" c "lang r", OF Star.IH] star_cons_iff)
next
  case (Plus r)
  show ?case
    by (auto simp: conc_deriv_iff[of "lang (deriv c r)" c "lang r", OF Plus.IH]
          conc_cons_iff star_cons_iff)
qed auto

lemma regexec_lang: "regexec r s \<longleftrightarrow> s \<in> lang r"
  by (induction s arbitrary: r) (auto simp: nullable_lang lang_deriv)


lemma conc_assoc: "conc (conc A B) C = conc A (conc B C)"
proof -
  have "\<And>u v w. (u @ v) @ w = u @ (v @ w)" by simp
  then show ?thesis unfolding conc_def by (auto; metis)
qed

lemma conc_Un_left: "conc (A \<union> B) C = conc A C \<union> conc B C"
  unfolding conc_def by auto

lemma conc_Un_right: "conc A (B \<union> C) = conc A B \<union> conc A C"
  unfolding conc_def by auto

lemma conc_eps_left: "conc {[]} A = A"
  unfolding conc_def by auto

lemma conc_insert_eps: "conc (insert [] A) C = C \<union> conc A C"
  unfolding conc_def by auto

lemma concI: "u \<in> A \<Longrightarrow> v \<in> B \<Longrightarrow> u @ v \<in> conc A B"
  unfolding conc_def by blast

lemma concE:
  assumes "w \<in> conc A B"
  obtains u v where "w = u @ v" "u \<in> A" "v \<in> B"
  using assms unfolding conc_def by blast

lemma star_append: "u \<in> star A \<Longrightarrow> v \<in> star A \<Longrightarrow> u @ v \<in> star A"
  by (induction u rule: star.induct) (auto intro: star_app)

lemma star_star: "conc (star A) (star A) = star A"
proof
  show "conc (star A) (star A) \<subseteq> star A"
    by (auto elim!: concE intro: star_append)
  show "star A \<subseteq> conc (star A) (star A)"
  proof
    fix w assume "w \<in> star A"
    then have "[] @ w \<in> conc (star A) (star A)" by (intro concI star_nil)
    then show "w \<in> conc (star A) (star A)" by simp
  qed
qed

lemma star_star_tail: "conc (star A) (conc (star A) U) = conc (star A) U"
  by (simp add: conc_assoc[symmetric] star_star)

lemma star_shift:
  assumes SS: "conc S S = S" and eps: "[] \<in> S" and ZS: "conc Z S = Z"
  shows "conc (star (conc S Z)) S = conc S (star Z)"
proof
  have "v @ s \<in> conc S (star Z)" if "v \<in> star (conc S Z)" "s \<in> S" for v s
    using that
  proof (induction v arbitrary: s rule: star.induct)
    case star_nil
    then have "s @ [] \<in> conc S (star Z)" by (intro concI star.star_nil)
    then show ?case by simp
  next
    case (star_app u v)
    from star_app.hyps(1) obtain s1 z where u: "u = s1 @ z" "s1 \<in> S" "z \<in> Z"
      by (elim concE)
    from star_app.IH[OF star_app.prems] obtain s3 t where
      vs: "v @ s = s3 @ t" "s3 \<in> S" "t \<in> star Z" by (elim concE)
    have "z @ s3 \<in> Z" using concI[OF u(3) vs(2)] ZS by simp
    then have "(z @ s3) @ t \<in> star Z" using vs(3) by (rule star.star_app)
    then have "s1 @ ((z @ s3) @ t) \<in> conc S (star Z)" using u(2) by (intro concI)
    then show ?case using u(1) vs(1) by simp
  qed
  then show "conc (star (conc S Z)) S \<subseteq> conc S (star Z)"
    by (auto elim!: concE)
next
  have "s @ w \<in> conc (star (conc S Z)) S" if "w \<in> star Z" "s \<in> S" for w s
    using that
  proof (induction w arbitrary: s rule: star.induct)
    case star_nil
    then have "[] @ s \<in> conc (star (conc S Z)) S" by (intro concI star.star_nil)
    then show ?case by simp
  next
    case (star_app z v)
    from star_app.IH[OF eps] obtain w' s2 where
      v: "v = w' @ s2" "w' \<in> star (conc S Z)" "s2 \<in> S" by (auto elim!: concE)
    have "s @ z \<in> conc S Z" using star_app.prems star_app.hyps(1) by (intro concI)
    then have "(s @ z) @ w' \<in> star (conc S Z)" using v(2) by (rule star.star_app)
    then have "((s @ z) @ w') @ s2 \<in> conc (star (conc S Z)) S" using v(3) by (intro concI)
    then show ?case using v(1) by simp
  qed
  then show "conc S (star Z) \<subseteq> conc (star (conc S Z)) S"
    by (auto elim!: concE)
qed

lemma star_shift_tail:
  assumes "conc S S = S" "[] \<in> S" "conc Z S = Z"
  shows "conc (star (conc S Z)) (conc S U) = conc S (conc (star Z) U)"
  using star_shift[OF assms] by (simp add: conc_assoc[symmetric])

lemma pattern_is_grammar: "lang intset_pattern = lang spec_grammar"
proof -
  let ?S = "star {[CHR '' '']}"
  let ?D = "lang digits"
  let ?C = "{[CHR '','']}"
  let ?Z = "conc ?D (conc ?S (conc ?C ?S))"
  have SS: "conc ?S ?S = ?S" by (rule star_star)
  have eps: "[] \<in> ?S" by (rule star_nil)
  have ZS: "conc ?Z ?S = ?Z" by (simp add: conc_assoc star_star)
  note shift = star_shift_tail[OF SS eps ZS]
  show ?thesis
    unfolding intset_pattern_def spec_grammar_def optional_spaces_def
    by (simp add: digits_def[symmetric] conc_assoc conc_Un_left conc_Un_right conc_eps_left
          conc_insert_eps shift star_star_tail)
qed

section \<open>Flattening, scanning and the loops\<close>

lemma length_written: "i + length xs \<le> length arr \<Longrightarrow> length (written arr i xs) = length arr"
  by (simp add: written_def)

lemma written_nil: "i \<le> length arr \<Longrightarrow> written arr i [] = arr"
  by (simp add: written_def)

lemma written_update:
  assumes "i + length xs < length arr"
  shows "(written arr i xs)[i + length xs := d] = written arr i (xs @ [d])"
proof -
  have "drop (i + length xs) arr = arr ! (i + length xs) # drop (Suc (i + length xs)) arr"
    using assms by (simp add: Cons_nth_drop_Suc)
  then show ?thesis using assms
    by (simp add: written_def list_update_append)
qed

lemma written_written:
  assumes "i + length xs + length ys \<le> length arr"
  shows "written (written arr i xs) (i + length xs) ys = written arr i (xs @ ys)"
  using assms by (simp add: written_def ac_simps)

lemma treeToArr_written:
  "i + treeSize t \<le> length arr \<Longrightarrow>
     treeToArr t arr i = Inr (written arr i (inorder t), i + treeSize t)"
proof (induction t arbitrary: arr i)
  case Null
  then show ?case by (simp add: written_nil)
next
  case (Node d l r)
  let ?n = "treeSize l"
  have len: "length (inorder l) = ?n" "length (inorder r) = treeSize r"
    by (simp_all add: length_inorder)
  let ?a1 = "written arr i (inorder l)"
  have l1: "treeToArr l arr i = Inr (?a1, i + ?n)"
    using Node.prems by (intro Node.IH(1)) simp
  have l2: "l = Null \<Longrightarrow> arr = ?a1"
    using Node.prems by (simp add: written_nil)
  have la1: "length ?a1 = length arr" using Node.prems by (simp add: length_written len)
  let ?a2 = "?a1[i + ?n := d]"
  have a2: "?a2 = written arr i (inorder l @ [d])"
    using written_update[of i "inorder l" arr d] Node.prems by (simp add: len)
  have la2: "length ?a2 = length arr" using la1 by simp
  have "treeToArr r ?a2 (Suc (i + ?n))
          = Inr (written ?a2 (Suc (i + ?n)) (inorder r), Suc (i + ?n) + treeSize r)"
    using Node.prems la2 by (intro Node.IH(2)) simp
  moreover have "written ?a2 (Suc (i + ?n)) (inorder r) = written arr i ((inorder l @ [d]) @ inorder r)"
    unfolding a2 using written_written[of i "inorder l @ [d]" "inorder r" arr] Node.prems
    by (simp add: len)
  ultimately have r1: "treeToArr r ?a2 (Suc (i + ?n))
          = Inr (written arr i (inorder l @ d # inorder r), Suc (i + ?n + treeSize r))"
    by simp
  have r2: "r = Null \<Longrightarrow> ?a2 = written arr i (inorder l @ d # inorder r)"
    using a2 by simp
  have lt: "i + ?n < length ?a1" using Node.prems la1 by simp
  show ?case
  proof (cases "l = Null")
    case True
    with l2 have "arr = ?a1" by simp
    with True lt r1 r2 show ?thesis
      by (cases "r = Null") (simp_all add: Let_def)
  next
    case False
    with l1 lt r1 r2 show ?thesis
      by (cases "r = Null") (simp_all add: Let_def)
  qed
qed

lemma tree_result_inorder: "tree_result t = Inr (inorder t)"
  using treeToArr_written[of 0 t "palloc_nums (treeSize t)"]
  by (simp add: tree_result_def palloc_nums_def written_def length_inorder)

lemma scan_digit:
  "is_digit c \<Longrightarrow>
     scan (c # cs) cur flag t
       = scan cs (cur * 10 + of_nat (of_char c - of_char CHR ''0'')) True t"
  by (auto simp: is_digit_def)

lemma scan_other:
  "\<not> is_digit c \<Longrightarrow>
     scan (c # cs) cur flag t
       = (if flag then (case insertNode cur t of Inl e \<Rightarrow> Inl e | Inr t' \<Rightarrow> scan cs 0 False t')
          else scan cs cur flag t)"
  by (auto simp: is_digit_def)

lemma scan_inv:
  "bst t \<Longrightarrow> balanced t \<Longrightarrow> \<exists>t'. scan s cur flag t = Inr t' \<and> bst t' \<and> balanced t'"
proof (induction s arbitrary: cur flag t)
  case Nil
  then show ?case by simp
next
  case (Cons c cs)
  show ?case
  proof (cases "is_digit c")
    case True
    then show ?thesis using Cons.IH[OF Cons.prems] by (simp only: scan_digit)
  next
    case False
    show ?thesis
    proof (cases flag)
      case True
      from insertNode_inv[OF Cons.prems, of cur] obtain t1 where
        "insertNode cur t = Inr t1" "bst t1" "balanced t1" by blast
      with Cons.IH[of t1 0 False] False True show ?thesis by (simp add: scan_other del: scan.simps)
    next
      case f: False
      with False Cons.IH[OF Cons.prems] show ?thesis by (simp add: scan_other del: scan.simps)
    qed
  qed
qed

lemma intset_in_total:
  "regexec intset_pattern s \<Longrightarrow> \<exists>t. scan s 0 False Null = Inr t \<and> bst t \<and> balanced t
      \<and> intset_in s = Inr (inorder t)"
  using scan_inv[of Null s 0 False]
  by (auto simp: intset_in_def tree_result_inorder)

lemma fields_not_nil: "fields s \<noteq> []"
  by (induction s) (auto split: list.splits)

lemma fields_run:
  "\<forall>x\<in>set p. is_digit x \<Longrightarrow> \<not> is_digit c \<Longrightarrow> fields (p @ c # cs) = p # fields cs"
  by (induction p) (auto split: list.splits)

lemma digit_runs_run:
  "\<forall>x\<in>set p. is_digit x \<Longrightarrow> \<not> is_digit c \<Longrightarrow>
     digit_runs (p @ c # cs) = (if p = [] then digit_runs cs else p # digit_runs cs)"
  by (simp add: digit_runs_def fields_run)

lemma dec_value_snoc:
  "dec_value (p @ [c]) = 10 * dec_value p + (of_char c - of_char CHR ''0'')"
  by (simp add: dec_value_def)

lemma scan_runs:
  assumes "\<forall>x\<in>set p. is_digit x" and "s = [] \<longrightarrow> p = []"
    and "s \<noteq> [] \<longrightarrow> \<not> is_digit (last s)"
  shows "scan s (of_nat (dec_value p)) (p \<noteq> []) t
           = insertNodes (map (\<lambda>r. of_nat (dec_value r)) (digit_runs (p @ s))) t"
  using assms
proof (induction s arbitrary: p t)
  case Nil
  then show ?case by (simp add: digit_runs_def)
next
  case (Cons c cs)
  show ?case
  proof (cases "is_digit c")
    case True
    then have cs: "cs \<noteq> []" using Cons.prems(3) by auto
    have "scan (c # cs) (of_nat (dec_value p)) (p \<noteq> []) t
            = scan cs (of_nat (dec_value (p @ [c]))) (p @ [c] \<noteq> []) t"
      using True by (simp add: scan_digit dec_value_snoc mult.commute del: scan.simps)
    also have "\<dots> = insertNodes (map (\<lambda>r. of_nat (dec_value r)) (digit_runs ((p @ [c]) @ cs))) t"
      using Cons.prems True cs by (intro Cons.IH) auto
    finally show ?thesis by simp
  next
    case False
    have "cs \<noteq> [] \<longrightarrow> \<not> is_digit (last cs)" using Cons.prems(3) by auto
    with Cons.IH[of "[]"] have tail:
      "scan cs 0 False t' = insertNodes (map (\<lambda>r. of_nat (dec_value r)) (digit_runs cs)) t'"
      for t'
      by (simp add: dec_value_def)
    show ?thesis
    proof (cases "p = []")
      case True
      then show ?thesis using False tail digit_runs_run[of "[]" c cs]
        by (simp add: scan_other dec_value_def del: scan.simps)
    next
      case np: False
      then show ?thesis using False tail digit_runs_run[OF Cons.prems(1) False, of cs]
        by (simp add: scan_other del: scan.simps split: sum.splits)
    qed
  qed
qed

lemma star_single: "w \<in> star {[c]} \<Longrightarrow> set w \<subseteq> {c}"
  by (induction w rule: star.induct) auto

lemma conc_last:
  assumes "w \<in> conc A B" and "\<And>v. v \<in> B \<Longrightarrow> v \<noteq> [] \<and> P (last v)"
  shows "w \<noteq> [] \<and> P (last w)"
proof -
  from assms(1) obtain u v where "w = u @ v" "v \<in> B" by (elim concE)
  with assms(2)[of v] show ?thesis by simp
qed

lemma closing_last:
  assumes "v \<in> conc {[CHR ''}'']} (star {[CHR '' '']})"
  shows "v \<noteq> [] \<and> \<not> is_digit (last v)"
proof -
  from assms obtain sp where v: "v = CHR ''}'' # sp" and sp: "sp \<in> star {[CHR '' '']}"
    by (auto elim!: concE)
  show ?thesis
  proof (cases "sp = []")
    case True
    with v show ?thesis by (simp add: is_digit_def)
  next
    case False
    then have "last sp \<in> set sp" by simp
    with star_single[OF sp] have "last sp = CHR '' ''" by auto
    with v False show ?thesis by (simp add: is_digit_def)
  qed
qed

lemma grammar_last:
  assumes "s \<in> lang spec_grammar"
  shows "s \<noteq> [] \<and> \<not> is_digit (last s)"
proof -
  let ?S = "star {[CHR '' '']}"
  from assms obtain M where
    "s \<in> conc ?S (conc {[CHR ''{'']} (conc ?S (conc M (conc {[CHR ''}'']} ?S))))"
    unfolding spec_grammar_def optional_spaces_def lang.simps by blast
  then show ?thesis
    apply (rule conc_last)
    apply (erule conc_last)
    apply (erule conc_last)
    apply (erule conc_last)
    apply (erule closing_last)
    done
qed

lemma intset_in_runs:
  assumes "s \<in> lang spec_grammar"
  shows "\<exists>t. insertNodes (map (\<lambda>r. of_nat (dec_value r)) (digit_runs s)) Null = Inr t
           \<and> bst t \<and> balanced t \<and> intset_in s = Inr (inorder t)"
proof -
  from assms have m: "regexec intset_pattern s"
    by (simp add: regexec_lang pattern_is_grammar)
  from grammar_last[OF assms] scan_runs[of "[]" s Null]
  have "scan s 0 False Null = insertNodes (map (\<lambda>r. of_nat (dec_value r)) (digit_runs s)) Null"
    by (simp add: dec_value_def)
  with intset_in_total[OF m] show ?thesis by auto
qed

lemma canonical_inorder: "bst t \<Longrightarrow> canonical (inorder t)"
  using bst_sorted[of t] by (simp add: canonical_def VARSIZE_ANY_EXHDR_def strict_sorted_iff)

lemma insertNode_inv2:
  assumes "bst t" "balanced t" "insertNode n t = Inr t'"
  shows "bst t' \<and> balanced t'"
  using insertNode_inv[OF assms(1,2), of n] assms(3) by auto

lemma insert_loop_inv:
  "bst t \<Longrightarrow> balanced t \<Longrightarrow> insert_loop nums sz i t = Inr t' \<Longrightarrow> bst t' \<and> balanced t'"
proof (induction nums sz i t rule: insert_loop.induct)
  case (1 nums sz i tree)
  show ?case
  proof (cases "i < sz")
    case True
    with "1.prems"(3) obtain x t1 where
      x: "array_read nums i = Inr x" and t1: "insertNode x tree = Inr t1"
      and rest: "insert_loop nums sz (i + 1) t1 = Inr t'"
      by (subst (asm) insert_loop.simps) (auto split: sum.splits)
    from insertNode_inv2[OF "1.prems"(1,2) t1] have "bst t1" "balanced t1" by auto
    from "1.IH"[OF True x t1 this rest] show ?thesis .
  next
    case False
    with "1.prems" show ?thesis by (subst (asm) insert_loop.simps) simp
  qed
qed

lemma search_insert_loop_inv:
  "bst t \<Longrightarrow> balanced t \<Longrightarrow> search_insert_loop want nums sz other high i t = Some (Inr t')
     \<Longrightarrow> bst t' \<and> balanced t'"
proof (induction want nums sz other high i t rule: search_insert_loop.induct)
  case (1 want nums sz other high i tree)
  show ?case
  proof (cases "i < sz")
    case True
    with "1.prems"(3) obtain x found where
      x: "array_read nums i = Inr x" and f: "binarySearch other 0 high x = Some (Inr found)"
      and rest: "if found = want
                 then \<exists>t1. insertNode x tree = Inr t1
                        \<and> search_insert_loop want nums sz other high (i + 1) t1 = Some (Inr t')
                 else search_insert_loop want nums sz other high (i + 1) tree = Some (Inr t')"
      by (subst (asm) search_insert_loop.simps) (auto split: sum.splits option.splits if_splits)
    show ?thesis
    proof (cases "found = want")
      case w: True
      with rest obtain t1 where t1: "insertNode x tree = Inr t1"
        and r: "search_insert_loop want nums sz other high (i + 1) t1 = Some (Inr t')" by auto
      from insertNode_inv2[OF "1.prems"(1,2) t1] have "bst t1" "balanced t1" by auto
      from "1.IH"(1)[OF True x f _ w t1 this r] show ?thesis by simp
    next
      case w: False
      with rest have r: "search_insert_loop want nums sz other high (i + 1) tree = Some (Inr t')"
        by simp
      from "1.IH"(2)[OF True x f _ w "1.prems"(1,2) r] show ?thesis by simp
    qed
  next
    case False
    with "1.prems" show ?thesis by (subst (asm) search_insert_loop.simps) simp
  qed
qed

lemma insert_loop_total:
  "bst t \<Longrightarrow> balanced t \<Longrightarrow> unat sz \<le> length nums \<Longrightarrow>
     \<exists>t'. insert_loop nums sz i t = Inr t' \<and> bst t' \<and> balanced t'"
proof (induction nums sz i t rule: insert_loop.induct)
  case (1 nums sz i tree)
  show ?case
  proof (cases "i < sz")
    case True
    with "1.prems"(3) have rd: "array_read nums i = Inr (nums ! unat i)"
      by (simp add: array_read_def word_less_nat_alt)
    from insertNode_inv[OF "1.prems"(1,2), of "nums ! unat i"] obtain t1 where
      t1: "insertNode (nums ! unat i) tree = Inr t1" "bst t1" "balanced t1" by blast
    from "1.IH"[OF True rd t1(1) t1(2,3) "1.prems"(3)] show ?thesis
      by (subst insert_loop.simps) (simp add: True rd t1(1))
  next
    case False
    with "1.prems" show ?thesis by (subst insert_loop.simps) simp
  qed
qed

lemma count_le_length:
  "unat (of_nat (VARSIZE_ANY_EXHDR a div 4) :: uint32) \<le> length a"
  by (simp add: VARSIZE_ANY_EXHDR_def unat_of_nat)

lemma intset_union_total: "\<exists>v. intset_union a b = Inr v"
proof -
  from insert_loop_total[of Null _ a 0, OF _ _ count_le_length] obtain t1 where
    t1: "insert_loop a (of_nat (VARSIZE_ANY_EXHDR a div 4)) 0 Null = Inr t1" "bst t1" "balanced t1"
    by auto
  from insert_loop_total[OF t1(2,3) count_le_length, of b 0] obtain t2 where
    "insert_loop b (of_nat (VARSIZE_ANY_EXHDR b div 4)) 0 t1 = Inr t2" by auto
  with t1(1) show ?thesis
    by (simp add: intset_union_def Let_def tree_result_inorder)
qed

section \<open>Parse and the results of the operators\<close>


lemmas grammar_eval = spec_grammar_def optional_spaces_def digits_def

lemma grammar_iff_regexec: "s \<in> lang spec_grammar \<longleftrightarrow> regexec spec_grammar s"
  by (simp add: regexec_lang)




text \<open>
  C9: on a text of the grammar the scanning loop inserts, run by run, the
  decimal value of each digit run reduced modulo \<open>2 ^ 32\<close>, and the elements
  of the Value are exactly these numbers.  No run raises an error, however
  long it is.
\<close>

theorem digit_run_value_wraps:
  "s \<in> lang spec_grammar \<longrightarrow>
     scan s 0 False Null
       = insertNodes (map (\<lambda>r. of_nat (dec_value r mod 2 ^ 32)) (digit_runs s)) Null
     \<and> (\<exists>v. intset_in s = Inr v
           \<and> (\<forall>e. e \<in> set v \<longleftrightarrow> (\<exists>r \<in> set (digit_runs s). unat e = dec_value r mod 2 ^ 32)))"
proof
  assume g: "s \<in> lang spec_grammar"
  have w: "(of_nat (n mod 2 ^ 32) :: uint32) = of_nat n" for n
    by (simp add: word_of_nat_eq_iff take_bit_eq_mod)
  have u: "unat e = n mod 2 ^ 32 \<longleftrightarrow> e = of_nat n" for e :: uint32 and n
  proof
    assume "unat e = n mod 2 ^ 32"
    then have "of_nat (unat e) = (of_nat (n mod 2 ^ 32) :: uint32)" by (simp only:)
    then show "e = of_nat n" by (simp only: w of_nat_unat ucast_id)
  next
    assume "e = of_nat n"
    then show "unat e = n mod 2 ^ 32" by (simp add: unat_of_nat)
  qed
  from intset_in_runs[OF g] obtain t where
    t: "insertNodes (map (\<lambda>r. of_nat (dec_value r)) (digit_runs s)) Null = Inr t"
      "bst t" "intset_in s = Inr (inorder t)" by blast
  from insertNodes_inv[of Null "map (\<lambda>r. of_nat (dec_value r)) (digit_runs s)"] t(1)
  have k: "keys t = (\<lambda>r. of_nat (dec_value r)) ` set (digit_runs s)" by auto
  have "scan s 0 False Null = insertNodes (map (\<lambda>r. of_nat (dec_value r)) (digit_runs s)) Null"
    using scan_runs[of "[]" s Null] grammar_last[OF g] by (simp add: dec_value_def)
  moreover have "\<forall>e. e \<in> set (inorder t)
      \<longleftrightarrow> (\<exists>r \<in> set (digit_runs s). unat e = dec_value r mod 2 ^ 32)"
    unfolding set_inorder k u by blast
  ultimately show "scan s 0 False Null
       = insertNodes (map (\<lambda>r. of_nat (dec_value r mod 2 ^ 32)) (digit_runs s)) Null
     \<and> (\<exists>v. intset_in s = Inr v
           \<and> (\<forall>e. e \<in> set v \<longleftrightarrow> (\<exists>r \<in> set (digit_runs s). unat e = dec_value r mod 2 ^ 32)))"
    unfolding w using t(3) by simp
qed


theorem digit_run_value_wraps_witness:
  "''{4294967297, 7}'' \<in> lang spec_grammar
   \<and> digit_runs ''{4294967297, 7}'' = [''4294967297'', ''7'']
   \<and> dec_value ''4294967297'' mod 2 ^ 32 = 1
   \<and> intset_in ''{4294967297, 7}'' = Inr [1, 7]"
proof -
  have "''{4294967297, 7}'' \<in> lang spec_grammar"
    unfolding grammar_iff_regexec by (simp add: grammar_eval)
  with digit_run_value_wraps[of "''{4294967297, 7}''"] show ?thesis
    by (simp add: scan_eval eval_defs digit_runs_def is_digit_def dec_value_def)
qed

text \<open>
  C5: on a text of the grammar Parse returns the values of the digit runs
  (as 32-bit numbers) in ascending order, each once.  The text
  \<open>{3, 1, 2, 1}\<close> gives the elements 1, 2, 3.
\<close>

theorem parse_sorted_run_values:
  "(s \<in> lang spec_grammar \<longrightarrow>
      (\<exists>v. intset_in s = Inr v \<and> sorted_wrt (<) v \<and> distinct v
          \<and> set v = (\<lambda>r. of_nat (dec_value r)) ` set (digit_runs s)))
   \<and> intset_in ''{3, 1, 2, 1}'' = Inr [1, 2, 3]"
proof
  show "s \<in> lang spec_grammar \<longrightarrow>
      (\<exists>v. intset_in s = Inr v \<and> sorted_wrt (<) v \<and> distinct v
          \<and> set v = (\<lambda>r. of_nat (dec_value r)) ` set (digit_runs s))"
  proof
    assume g: "s \<in> lang spec_grammar"
    from intset_in_runs[OF g] obtain t where
      t: "insertNodes (map (\<lambda>r. of_nat (dec_value r)) (digit_runs s)) Null = Inr t"
        "bst t" "intset_in s = Inr (inorder t)" by blast
    from insertNodes_inv[of Null "map (\<lambda>r. of_nat (dec_value r)) (digit_runs s)"] t(1)
    have "keys t = (\<lambda>r. of_nat (dec_value r)) ` set (digit_runs s)" by auto
    moreover from bst_sorted[OF t(2)] have "sorted_wrt (<) (inorder t)" "distinct (inorder t)"
      by (simp_all add: strict_sorted_iff)
    ultimately show "\<exists>v. intset_in s = Inr v \<and> sorted_wrt (<) v \<and> distinct v
          \<and> set v = (\<lambda>r. of_nat (dec_value r)) ` set (digit_runs s)"
      using t(3) by (simp add: set_inorder)
  qed
  show "intset_in ''{3, 1, 2, 1}'' = Inr [1, 2, 3]"
    by (simp add: scan_eval eval_defs)
qed

theorem parse_sorted_run_values_witness:
  "''{30, 1, 2, 1}'' \<in> lang spec_grammar
   \<and> map dec_value (digit_runs ''{30, 1, 2, 1}'') = [30, 1, 2, 1]
   \<and> intset_in ''{30, 1, 2, 1}'' = Inr [1, 2, 30]"
proof -
  have "''{30, 1, 2, 1}'' \<in> lang spec_grammar"
    unfolding grammar_iff_regexec by (simp add: grammar_eval)
  with parse_sorted_run_values[of "''{30, 1, 2, 1}''"] show ?thesis
    by (simp add: scan_eval eval_defs digit_runs_def is_digit_def dec_value_def)
qed

text \<open>
  C6: whatever Parse, Union, Intersection, Difference or SymmetricDifference
  returns is canonical: strictly increasing, without duplicates, and of the
  length its count says.  Union returns a Value on all operands.
\<close>

theorem results_canonical:
  "(intset_in s = Inr v \<longrightarrow> canonical v)
   \<and> (intset_union a b = Inr v \<longrightarrow> canonical v)
   \<and> (intset_intersectn a b = Some (Inr v) \<longrightarrow> canonical v)
   \<and> (intset_diff a b = Some (Inr v) \<longrightarrow> canonical v)
   \<and> (intset_disjunctn a b = Some (Inr v) \<longrightarrow> canonical v)
   \<and> (\<exists>u. intset_union a b = Inr u)"
proof -
  have empty: "canonical []" by (simp add: canonical_def VARSIZE_ANY_EXHDR_def)
  have res: "canonical v" if "bst t" "tree_result t = Inr v" for t
    using that canonical_inorder[of t] by (simp add: tree_result_inorder)
  have start: "bst Null" "balanced Null" by simp_all
  have p: "intset_in s = Inr v \<longrightarrow> canonical v"
  proof
    assume a: "intset_in s = Inr v"
    then have "regexec intset_pattern s" by (auto simp: intset_in_def split: if_splits)
    from intset_in_total[OF this] a show "canonical v" by (auto simp: canonical_inorder)
  qed
  have u: "intset_union a b = Inr v \<longrightarrow> canonical v"
  proof
    assume a: "intset_union a b = Inr v"
    show "canonical v"
    proof (cases "v = []")
      case True
      with empty show ?thesis by simp
    next
      case False
      with a obtain t1 t2 asize bsize where
        "insert_loop a asize 0 Null = Inr t1" "insert_loop b bsize 0 t1 = Inr t2"
        "tree_result t2 = Inr v"
        by (auto simp: intset_union_def Let_def split: if_splits sum.splits)
      with insert_loop_inv start show ?thesis by (meson res)
    qed
  qed
  have i: "intset_intersectn a b = Some (Inr v) \<longrightarrow> canonical v"
  proof
    assume a: "intset_intersectn a b = Some (Inr v)"
    show "canonical v"
    proof (cases "v = []")
      case True
      with empty show ?thesis by simp
    next
      case False
      with a obtain t nums sz other high where
        "search_insert_loop True nums sz other high 0 Null = Some (Inr t)"
        "tree_result t = Inr v"
        by (auto simp: intset_intersectn_def Let_def split: if_splits sum.splits option.splits)
      with search_insert_loop_inv start show ?thesis by (meson res)
    qed
  qed
  have d: "intset_diff a b = Some (Inr v) \<longrightarrow> canonical v"
  proof
    assume a: "intset_diff a b = Some (Inr v)"
    show "canonical v"
    proof (cases "v = []")
      case True
      with empty show ?thesis by simp
    next
      case False
      with a obtain t nums sz other high where
        "search_insert_loop False nums sz other high 0 Null = Some (Inr t)"
        "tree_result t = Inr v"
        by (auto simp: intset_diff_def Let_def split: if_splits sum.splits option.splits)
      with search_insert_loop_inv start show ?thesis by (meson res)
    qed
  qed
  have x: "intset_disjunctn a b = Some (Inr v) \<longrightarrow> canonical v"
  proof
    assume a: "intset_disjunctn a b = Some (Inr v)"
    show "canonical v"
    proof (cases "v = []")
      case True
      with empty show ?thesis by simp
    next
      case False
      with a obtain t1 t2 asize bsize ahigh bhigh where
        "search_insert_loop False a asize b bhigh 0 Null = Some (Inr t1)"
        "search_insert_loop False b bsize a ahigh 0 t1 = Some (Inr t2)"
        "tree_result t2 = Inr v"
        by (auto simp: intset_disjunctn_def Let_def split: if_splits sum.splits option.splits)
      with search_insert_loop_inv start show ?thesis by (meson res)
    qed
  qed
  from p u i d x intset_union_total[of a b] show ?thesis by blast
qed

theorem results_canonical_witness:
  "intset_in ''{3, 1, 2, 1}'' = Inr [1, 2, 3] \<and> canonical [1, 2, 3]
   \<and> intset_union [1, 2] [2, 3] = Inr [1, 2, 3]
   \<and> intset_intersectn [1, 2, 3] [2, 3, 4] = Some (Inr [2, 3]) \<and> canonical [2, 3]
   \<and> intset_diff [2, 3] [2] = Some (Inr [3]) \<and> canonical [3]
   \<and> intset_disjunctn [1, 2] [1, 3] = Some (Inr [2, 3])"
  using results_canonical[of "''{3, 1, 2, 1}''" "[1, 2, 3]" "[1, 2]" "[2, 3]"]
    results_canonical[of "''{}''" "[2, 3]" "[1, 2, 3]" "[2, 3, 4]"]
    results_canonical[of "''{}''" "[3]" "[2, 3]" "[2]"]
    results_canonical[of "''{}''" "[2, 3]" "[1, 2]" "[1, 3]"]
  by (simp add: scan_eval eval_defs intset_union_def intset_intersectn_def intset_diff_def
        intset_disjunctn_def canonical_def word_le_nat_alt)

section \<open>Render and the round trip\<close>

lemma digit_nth:
  assumes "d < 10"
  shows "is_digit (''0123456789'' ! d) \<and> of_char (''0123456789'' ! d) - of_char CHR ''0'' = d"
proof -
  from assms have "d \<in> {0, 1, 2, 3, 4, 5, 6, 7, 8, 9}" by auto
  then show ?thesis by (elim insertE emptyE) (simp_all add: is_digit_def)
qed

lemma utoa_digits: "utoa n \<noteq> [] \<and> (\<forall>c \<in> set (utoa n). is_digit c)"
proof (induction n rule: utoa.induct)
  case (1 n)
  show ?case
  proof (cases "n < 10")
    case True
    then show ?thesis using digit_nth[of n] by (subst utoa.simps, subst (2) utoa.simps) simp
  next
    case False
    then have "n mod 10 < 10" by simp
    with False "1.IH" digit_nth[of "n mod 10"] show ?thesis
      by (subst utoa.simps, subst (2) utoa.simps) auto
  qed
qed

lemma length_utoa: "length (utoa n) = log10_trunc n + 1"
proof (induction n rule: utoa.induct)
  case (1 n)
  show ?case
  proof (cases "n < 10")
    case True
    then show ?thesis by (subst utoa.simps, subst log10_trunc.simps) simp
  next
    case False
    with "1.IH" show ?thesis by (subst utoa.simps, subst log10_trunc.simps) simp
  qed
qed

lemma dec_value_utoa: "dec_value (utoa n) = n"
proof (induction n rule: utoa.induct)
  case (1 n)
  show ?case
  proof (cases "n < 10")
    case True
    then show ?thesis using digit_nth[of n] by (subst utoa.simps) (simp add: dec_value_def)
  next
    case False
    then have "n mod 10 < 10" by simp
    with False "1.IH" digit_nth[of "n mod 10"] show ?thesis
      by (subst utoa.simps) (simp add: dec_value_snoc)
  qed
qed

lemma unat_succ:
  fixes i sz :: uint32
  assumes "i < sz"
  shows "unat (i + 1) = unat i + 1"
proof -
  from assms have "unat i < unat sz" by (simp add: word_less_nat_alt)
  moreover have "unat sz < 2 ^ 32" using unsigned_less[of sz, where 'a = nat] by simp
  ultimately show ?thesis by (simp add: unat_word_ariths)
qed

lemma array_read_in:
  "unat sz = length nums \<Longrightarrow> i < sz \<Longrightarrow> array_read nums i = Inr (nums ! unat i)"
  by (simp add: array_read_def word_less_nat_alt)

lemma drop_step:
  fixes i sz :: uint32
  assumes "unat sz = length nums" "i < sz"
  shows "drop (unat i) nums = nums ! unat i # drop (unat (i + 1)) nums"
proof -
  from assms have "unat i < length nums" by (simp add: word_less_nat_alt)
  then show ?thesis using unat_succ[OF assms(2)] by (simp add: Cons_nth_drop_Suc)
qed

lemma drop_done:
  fixes i sz :: uint32
  assumes "unat sz = length nums" "\<not> i < sz"
  shows "drop (unat i) nums = []"
  using assms by (simp add: word_less_nat_alt)

lemma curr_len_eq:
  "(if x \<noteq> 0 then log10_trunc (unat x) + 2 else 2) = length (utoa (unat x)) + 1"
  by (cases "x = 0") (simp_all add: length_utoa log10_trunc.simps)

lemma out_len_loop_sum:
  "unat sz = length nums \<Longrightarrow>
     out_len_loop nums sz i acc
       = Inr (acc + sum_list (map (\<lambda>x. length (utoa (unat x))) (drop (unat i) nums)))"
proof (induction nums sz i acc rule: out_len_loop.induct)
  case (1 nums sz i acc)
  show ?case
  proof (cases "i < sz")
    case True
    note rd = array_read_in[OF "1.prems" True]
    have w: "(if x \<noteq> 0 then acc + (log10_trunc (unat x) + 1) else acc + 1)
               = acc + length (utoa (unat x))" for x :: uint32
      by (cases "x = 0") (simp_all add: length_utoa log10_trunc.simps)
    from "1.IH"[OF True rd "1.prems"] show ?thesis
      by (subst out_len_loop.simps) (simp add: True rd w drop_step[OF "1.prems" True])
  next
    case False
    then show ?thesis
      by (subst out_len_loop.simps) (simp add: drop_done[OF "1.prems" False])
  qed
qed


lemma memcpy_piece:
  assumes "sofar + (length (utoa (unat x)) + 1) \<le> length buf"
  shows "memcpy buf sofar (psprintf_u x @ [CHR 0x00]) (length (utoa (unat x)) + 1)
           = Inr (written buf sofar (psprintf_u x))"
  using assms by (simp add: memcpy_def written_def psprintf_u_def)

lemma out_copy_loop_written:
  "unat sz = length nums \<Longrightarrow>
   sofar + length (concat (map psprintf_u (drop (unat i) nums))) \<le> length buf \<Longrightarrow>
     out_copy_loop nums sz i buf sofar
       = Inr (written buf sofar (concat (map psprintf_u (drop (unat i) nums))),
              sofar + length (concat (map psprintf_u (drop (unat i) nums))))"
proof (induction nums sz i buf sofar rule: out_copy_loop.induct)
  case (1 nums sz i buf sofar)
  show ?case
  proof (cases "i < sz")
    case True
    let ?x = "nums ! unat i"
    let ?rest = "concat (map psprintf_u (drop (unat (i + 1)) nums))"
    note rd = array_read_in[OF "1.prems"(1) True]
    note dr = drop_step[OF "1.prems"(1) True]
    have lp: "length (psprintf_u ?x) = length (utoa (unat ?x)) + 1"
      by (simp add: psprintf_u_def)
    from "1.prems"(2) have cap: "sofar + length (psprintf_u ?x) + length ?rest \<le> length buf"
      by (simp add: dr)
    then have mc: "memcpy buf sofar (psprintf_u ?x @ [CHR 0x00]) (length (utoa (unat ?x)) + 1)
                     = Inr (written buf sofar (psprintf_u ?x))"
      by (intro memcpy_piece) (simp add: lp)
    let ?buf' = "written buf sofar (psprintf_u ?x)"
    have lb: "length ?buf' = length buf" using cap by (simp add: length_written)
    let ?cl = "if ?x \<noteq> 0 then log10_trunc (unat ?x) + 2 else 2"
    have cl: "?cl = length (utoa (unat ?x)) + 1" by (rule curr_len_eq)
    have mc': "memcpy buf sofar (psprintf_u ?x @ [CHR 0x00]) ?cl = Inr ?buf'"
      using mc by (simp only: cl)
    have "sofar + ?cl + length ?rest \<le> length ?buf'"
      using cap lb by (simp only: cl lp)
    from "1.IH"[OF True rd refl refl mc' "1.prems"(1) this]
    have "out_copy_loop nums sz (i + 1) ?buf' (sofar + (length (utoa (unat ?x)) + 1))
            = Inr (written ?buf' (sofar + (length (utoa (unat ?x)) + 1)) ?rest,
                   sofar + (length (utoa (unat ?x)) + 1) + length ?rest)"
      by (simp only: cl)
    moreover have "written ?buf' (sofar + length (psprintf_u ?x)) ?rest
                     = written buf sofar (psprintf_u ?x @ ?rest)"
      using cap by (intro written_written) simp
    ultimately show ?thesis using mc
      by (subst out_copy_loop.simps) (simp add: True rd curr_len_eq dr lp Let_def)
  next
    case False
    then show ?thesis using "1.prems"(2)
      by (subst out_copy_loop.simps) (simp add: drop_done[OF "1.prems"(1) False] written_nil)
  qed
qed


lemma length_pieces:
  "length (concat (map psprintf_u xs))
     = sum_list (map (\<lambda>x. length (utoa (unat x))) xs) + length xs"
  by (induction xs) (simp_all add: psprintf_u_def)

lemma butlast_pieces:
  "xs \<noteq> [] \<Longrightarrow>
     butlast (concat (map psprintf_u xs)) = join_commas (map (\<lambda>x. utoa (unat x)) xs)"
proof (induction xs)
  case Nil
  then show ?case by simp
next
  case (Cons x xs)
  show ?case
  proof (cases xs)
    case Nil
    then show ?thesis by (simp add: psprintf_u_def)
  next
    case (Cons y ys)
    then have "concat (map psprintf_u xs) \<noteq> []" by (simp add: psprintf_u_def)
    with Cons.IH Cons show ?thesis by (simp add: psprintf_u_def butlast_append)
  qed
qed

lemma pieces_no_zero: "CHR 0x00 \<notin> set (concat (map psprintf_u xs))"
proof -
  have "CHR 0x00 \<notin> set (utoa n)" for n
    using utoa_digits[of n] by (auto simp: is_digit_def)
  then show ?thesis by (auto simp: psprintf_u_def)
qed

lemma close_brace:
  "xs \<noteq> [] \<Longrightarrow> (a # xs @ [z])[length xs := c] = a # butlast xs @ [c, z]"
  by (cases xs rule: rev_cases) (simp_all add: list_update_append)

lemma close_zero:
  "xs \<noteq> [] \<Longrightarrow> (a # butlast xs @ [c, z])[Suc (length xs) := z'] = a # butlast xs @ [c, z']"
  by (cases xs rule: rev_cases) (simp_all add: list_update_append)

lemma unat_length:
  "length (v :: intSet) < 2 ^ 32 \<Longrightarrow> unat (of_nat (VARSIZE_ANY_EXHDR v div 4) :: uint32) = length v"
  by (simp add: VARSIZE_ANY_EXHDR_def unat_of_nat)

lemma intset_out_render:
  assumes ne: "v \<noteq> []" and len: "length v < 2 ^ 32"
  shows "intset_out v = Inr (render_text v)"
proof -
  let ?sz = "of_nat (VARSIZE_ANY_EXHDR v div 4) :: uint32"
  let ?P = "concat (map psprintf_u v)"
  let ?n = "sum_list (map (\<lambda>x. length (utoa (unat x))) v)"
  have sz: "unat ?sz = length v" by (rule unat_length[OF len])
  with ne have nz: "?sz \<noteq> 0" by (metis length_0_conv unat_0)
  have lP: "length ?P = ?n + length v" by (rule length_pieces)
  from ne have Pne: "?P \<noteq> []" by (cases v) (simp_all add: psprintf_u_def)
  have l1: "out_len_loop v ?sz 0 0 = Inr ?n"
    using out_len_loop_sum[OF sz, of 0 0] by simp
  let ?res_len = "?n + unat ?sz + 2"
  have rl: "?res_len = length ?P + 2" by (simp add: lP sz)
  let ?r0 = "CHR ''{'' # replicate (length ?P) (CHR 0x00) @ [CHR 0x00]"
  have w0: "char_write (palloc_chars ?res_len) 0 CHR ''{'' = Inr ?r0"
    by (simp only: rl) (simp add: char_write_def palloc_chars_def replicate_append_same)
  let ?r1 = "CHR ''{'' # ?P @ [CHR 0x00]"
  have "out_copy_loop v ?sz 0 ?r0 1
          = Inr (written ?r0 1 (concat (map psprintf_u (drop (unat (0::uint32)) v))),
                 1 + length (concat (map psprintf_u (drop (unat (0::uint32)) v))))"
    by (rule out_copy_loop_written[OF sz]) simp
  moreover have "written ?r0 1 ?P = ?r1" by (simp add: written_def)
  ultimately have l2: "out_copy_loop v ?sz 0 ?r0 1 = Inr (?r1, 1 + length ?P)" by simp
  let ?r2 = "CHR ''{'' # butlast ?P @ [CHR ''}'', CHR 0x00]"
  have w1: "char_write ?r1 (?res_len - 2) CHR ''}'' = Inr ?r2"
  proof -
    have i: "?res_len - 2 = length ?P" by (simp add: lP sz)
    have b: "length ?P < length ?r1" by simp
    show ?thesis
      unfolding char_write_def i using b close_brace[OF Pne, of "CHR ''{''" "CHR 0x00" "CHR ''}''"]
      by (simp only: if_True)
  qed
  have w2: "char_write ?r2 (?res_len - 1) (CHR 0x00) = Inr ?r2"
  proof -
    have i: "?res_len - 1 = Suc (length ?P)" by (simp add: lP sz)
    have b: "Suc (length ?P) < length ?r2" using Pne by simp
    show ?thesis
      unfolding char_write_def i
      using b close_zero[OF Pne, of "CHR ''{''" "CHR ''}''" "CHR 0x00" "CHR 0x00"]
      by (simp only: if_True)
  qed
  have "CHR 0x00 \<notin> set (butlast ?P)"
    using pieces_no_zero[of v] by (meson in_set_butlastD)
  then have "takeWhile (\<lambda>c. c \<noteq> CHR 0x00) (butlast ?P @ [CHR ''}'', CHR 0x00])
               = butlast ?P @ takeWhile (\<lambda>c. c \<noteq> CHR 0x00) [CHR ''}'', CHR 0x00]"
    by (intro takeWhile_append2) auto
  then have "takeWhile (\<lambda>c. c \<noteq> CHR 0x00) ?r2 = CHR ''{'' # butlast ?P @ ''}''"
    by simp
  then have cs: "cstring ?r2 = Inr (render_text v)"
    by (simp add: cstring_def render_text_def butlast_pieces[OF ne])
  show ?thesis
    unfolding intset_out_def Let_def using nz
    by (simp only: l1 w0 l2 w1 w2 cs if_False sum.case prod.case)
qed

lemma all_digits_star: "\<forall>c \<in> set w. is_digit c \<Longrightarrow> w \<in> star {[c] | c. CHR ''0'' \<le> c \<and> c \<le> CHR ''9''}"
proof (induction w)
  case Nil
  then show ?case by (simp add: star_nil)
next
  case (Cons c w)
  then have "[c] \<in> {[c] | c. CHR ''0'' \<le> c \<and> c \<le> CHR ''9''}" by (simp add: is_digit_def)
  moreover from Cons have "w \<in> star {[c] | c. CHR ''0'' \<le> c \<and> c \<le> CHR ''9''}" by simp
  ultimately have "[c] @ w \<in> star {[c] | c. CHR ''0'' \<le> c \<and> c \<le> CHR ''9''}"
    by (rule star_app)
  then show ?case by simp
qed

lemma digits_lang:
  assumes "w \<noteq> []" "\<forall>c \<in> set w. is_digit c"
  shows "w \<in> lang digits"
proof -
  from assms(1) obtain c w' where w: "w = c # w'" by (cases w) auto
  with assms(2) have "[c] \<in> {[c] | c. CHR ''0'' \<le> c \<and> c \<le> CHR ''9''}"
    by (simp add: is_digit_def)
  moreover from w assms(2) have "w' \<in> star {[c] | c. CHR ''0'' \<le> c \<and> c \<le> CHR ''9''}"
    by (intro all_digits_star) simp
  ultimately have "[c] @ w' \<in> lang digits" unfolding digits_def lang.simps by (rule concI)
  with w show ?thesis by simp
qed

lemma join_commas_lang:
  assumes "ws \<noteq> []" "\<forall>w \<in> set ws. w \<noteq> [] \<and> (\<forall>c \<in> set w. is_digit c)"
  shows "join_commas ws
           \<in> conc (star (conc (lang digits)
                      (conc (star {[CHR '' '']}) (conc {[CHR '','']} (star {[CHR '' '']})))))
                  (conc (lang digits) (star {[CHR '' '']}))"
    (is "_ \<in> conc (star ?X) ?Y")
  using assms
proof (induction ws rule: join_commas.induct)
  case 1
  then show ?case by simp
next
  case (2 w)
  then have "w \<in> lang digits" by (intro digits_lang) simp_all
  from concI[OF this star_nil] have "w @ [] \<in> ?Y" .
  from concI[OF star_nil this] have "[] @ (w @ []) \<in> conc (star ?X) ?Y" .
  then show ?case by simp
next
  case (3 w w' ws)
  then have "join_commas (w' # ws) \<in> conc (star ?X) ?Y" by simp
  then obtain u r where ur: "join_commas (w' # ws) = u @ r" "u \<in> star ?X" "r \<in> ?Y"
    by (rule concE)
  from 3 have "w \<in> lang digits" by (intro digits_lang) simp_all
  moreover have "[CHR '',''] \<in> {[CHR '','']}" by simp
  ultimately have "w @ ([] @ ([CHR '',''] @ [])) \<in> ?X"
    by (intro concI star_nil)
  then have "(w @ ([] @ ([CHR '',''] @ []))) @ u \<in> star ?X" using ur(2) by (rule star_app)
  then have "((w @ ([] @ ([CHR '',''] @ []))) @ u) @ r \<in> conc (star ?X) ?Y"
    using ur(3) by (rule concI)
  then show ?case using ur(1) by simp
qed

lemma render_text_grammar:
  assumes "v \<noteq> []"
  shows "render_text v \<in> lang spec_grammar"
proof -
  let ?ws = "map (\<lambda>x. utoa (unat x)) v"
  have "join_commas ?ws
           \<in> conc (star (conc (lang digits)
                      (conc (star {[CHR '' '']}) (conc {[CHR '','']} (star {[CHR '' '']})))))
                  (conc (lang digits) (star {[CHR '' '']}))"
    using assms utoa_digits by (intro join_commas_lang) auto
  then have "join_commas ?ws \<in> lang (Opt
           (Seq (Star
                  (Seq digits (Seq optional_spaces (Seq (Chr CHR '','') optional_spaces))))
           (Seq digits optional_spaces)))"
    by (simp add: optional_spaces_def)
  then have "[] @ ([CHR ''{''] @ ([] @ (join_commas ?ws @ ([CHR ''}''] @ []))))
               \<in> lang spec_grammar"
    unfolding spec_grammar_def optional_spaces_def lang.simps(6)
    by (intro concI) (simp_all add: star_nil)
  then show ?thesis by (simp add: render_text_def)
qed

lemma digit_runs_join:
  assumes "ws \<noteq> []" "\<forall>w \<in> set ws. w \<noteq> [] \<and> (\<forall>c \<in> set w. is_digit c)"
  shows "digit_runs (join_commas ws @ ''}'') = ws"
  using assms
proof (induction ws rule: join_commas.induct)
  case 1
  then show ?case by simp
next
  case (2 w)
  then show ?case
    using digit_runs_run[of w "CHR ''}''" "[]"] by (simp add: is_digit_def digit_runs_def)
next
  case (3 w w' ws)
  then have "digit_runs (join_commas (w' # ws) @ ''}'') = w' # ws" by simp
  moreover have "digit_runs (w @ CHR '','' # (join_commas (w' # ws) @ ''}''))
                   = w # digit_runs (join_commas (w' # ws) @ ''}'')"
    using 3(2,3) digit_runs_run[of w "CHR '',''" "join_commas (w' # ws) @ ''}''"]
    by (simp add: is_digit_def)
  ultimately show ?case by simp
qed

lemma digit_runs_render:
  assumes "v \<noteq> []"
  shows "digit_runs (render_text v) = map (\<lambda>x. utoa (unat x)) v"
proof -
  let ?ws = "map (\<lambda>x. utoa (unat x)) v"
  have "digit_runs (join_commas ?ws @ ''}'') = ?ws"
    using assms utoa_digits by (intro digit_runs_join) auto
  moreover have "digit_runs (CHR ''{'' # (join_commas ?ws @ ''}'')) = digit_runs (join_commas ?ws @ ''}'')"
    using digit_runs_run[of "[]" "CHR ''{''" "join_commas ?ws @ ''}''"]
    by (simp add: is_digit_def)
  ultimately show ?thesis by (simp add: render_text_def)
qed

lemma strict_sorted_unique:
  assumes "sorted_wrt (<) xs" "sorted_wrt (<) ys" "set xs = set ys"
  shows "xs = (ys :: uint32 list)"
  using assms by (simp add: strict_sorted_iff sorted_distinct_set_unique)

lemma intset_in_render:
  assumes ne: "v \<noteq> []" and s: "sorted_wrt (<) v"
  shows "intset_in (render_text v) = Inr v"
proof -
  have vals: "map (\<lambda>r. of_nat (dec_value r)) (digit_runs (render_text v)) = v"
    by (simp add: digit_runs_render[OF ne] comp_def dec_value_utoa map_idI)
  from intset_in_runs[OF render_text_grammar[OF ne]] obtain t where
    t: "insertNodes v Null = Inr t" "bst t" "intset_in (render_text v) = Inr (inorder t)"
    unfolding vals by blast
  from insertNodes_inv[of Null v] t(1) have "keys t = set v" by auto
  then have "inorder t = v"
    using bst_sorted[OF t(2)] s by (intro strict_sorted_unique) (simp_all add: set_inorder)
  with t(3) show ?thesis by simp
qed

text \<open>
  C4: for a canonical Value whose count fits 32 bits, Render returns a text
  and Parse of that text returns the Value.  The text is \<open>{}\<close> for the
  empty Value and the elements in decimal, separated by commas, in braces
  otherwise.
\<close>

theorem parse_render_round_trip:
  assumes "canonical v" and "length v < 2 ^ 32"
  shows "\<exists>txt. intset_out v = Inr txt \<and> intset_in txt = Inr v
           \<and> txt = (if v = [] then ''{}'' else render_text v)"
proof (cases "v = []")
  case True
  have "intset_out [] = Inr ''{}''" by (simp add: intset_out_def VARSIZE_ANY_EXHDR_def)
  moreover have "intset_in ''{}'' = Inr []" by (simp add: scan_eval eval_defs)
  ultimately show ?thesis using True by simp
next
  case False
  from assms(1) have "sorted_wrt (<) v" by (simp add: canonical_def)
  with False intset_out_render[OF False assms(2)] intset_in_render[OF False] show ?thesis
    by simp
qed

theorem parse_render_round_trip_witness:
  "canonical [1, 20, 300] \<and> length [1, 20, 300 :: uint32] < 2 ^ 32
   \<and> intset_out [1, 20, 300] = Inr ''{1,20,300}''
   \<and> intset_in ''{1,20,300}'' = Inr [1, 20, 300]"
proof -
  have c: "canonical [1, 20, 300]" by (simp add: canonical_def VARSIZE_ANY_EXHDR_def)
  have l: "length [1, 20, 300 :: uint32] < 2 ^ 32" by simp
  have r: "render_text [1, 20, 300] = ''{1,20,300}''"
    by (simp add: render_text_def utoa.simps)
  from parse_render_round_trip[OF c l] c l show ?thesis by (simp add: r)
qed

section \<open>Operators on concrete sets\<close>


text \<open>
  C1: \<open>ContainsAll(a, b)\<close> is to return false at once when \<open>a\<close> has fewer
  elements than \<open>b\<close> and otherwise to decide whether \<open>a\<close> holds every
  element of \<open>b\<close>.  The code compares the element count of \<open>a\<close> with the
  byte count of \<open>b\<close>: for \<open>a = {1, 2}\<close> and \<open>b = {1}\<close> it answers false,
  while \<open>ContainsOnly(b, a)\<close>, which divides both sizes by four, answers
  true.
\<close>

theorem contain_all_two_one:
  "intset_contain_all [1, 2] [1] = Some (Inr False)
   \<and> intset_contain_only [1] [1, 2] = Some (Inr True)"
  by (simp add: intset_contain_all_def intset_contain_only_def eval_defs scan_eval)

text \<open>
  C2: every operation other than Parse is to read inside its arrays only and
  to return.  \<open>binarySearch\<close> leaves the array when the target is below the
  first element: searching \<open>{5}\<close> for \<open>3\<close> reads index \<open>2 ^ 31 - 1\<close>.
  \<open>Difference({1}, {})\<close> searches an empty array up to \<open>0 - 1\<close>, and
  \<open>ContainsAll({1, 2, 3, 4}, {1})\<close> reads four elements of \<open>b\<close>.
\<close>

theorem contains_below_first:
  "intset_contains 3 [5] = Some (Inl OutOfBounds)
   \<and> intset_diff [1] [] = Some (Inl OutOfBounds)
   \<and> intset_contain_all [1, 2, 3, 4] [1] = Some (Inl OutOfBounds)"
  by (simp add: intset_contains_def intset_diff_def intset_contain_all_def eval_defs scan_eval)

text \<open>
  C3: \<open>SymmetricDifference(a, b)\<close> is to be empty when \<open>a\<close> equals \<open>b\<close> and
  otherwise to hold the elements of exactly one operand.  The pretest
  compares the first \<open>count(a)\<close> positions only: for \<open>a = {1}\<close> and
  \<open>b = {1, 2}\<close> the result is empty, not \<open>{2}\<close>, although \<open>Equal(a, b)\<close>,
  which compares the counts first, is false.
\<close>

theorem disjunctn_prefix:
  "intset_disjunctn [1] [1, 2] = Some (Inr [])
   \<and> intset_equal [1] [1, 2] = Inr False"
  by (simp add: intset_disjunctn_def intset_equal_def eval_defs scan_eval)

text \<open>
  C10: with an empty first operand the pretest of \<open>intset_disjunctn\<close>
  compares nothing and succeeds, so the result is empty whatever \<open>b\<close> is.
\<close>

theorem disjunctn_empty_left:
  "intset_disjunctn [] b = Some (Inr [])"
  by (simp add: intset_disjunctn_def VARSIZE_ANY_EXHDR_def numsEqual_def numsEqual_from.simps)

end
